theory Spec2Isabelle
  imports Complex_Main "HOL-Library.Word" "HOL-Library.Multiset" "HOL-Library.AList"
    "HOL-Library.Char_ord" "HOL-Library.List_Lexorder"
begin

unbundle bit_operations_syntax

section \<open>Tier cutoffs wizard (app.js, lines 1063-1144)\<close>

text \<open>
  \<^verbatim>\<open>const CUTOFF_TIERS = ['SS','S','A','B','C','D','F'];\<close>
  \<^verbatim>\<open>let cutState = null; // { rankIds, pos, chosen: {SS:number,...}, cursor }\<close>
  Tier labels are the strings of the source. \<open>chosen\<close> is the object keyed by label; its
  values and \<open>cursor\<close> are JavaScript numbers that the code only ever adds and subtracts, so
  they are integers here.
\<close>

definition CUTOFF_TIERS :: "string list" where
  "CUTOFF_TIERS = [''SS'', ''S'', ''A'', ''B'', ''C'', ''D'', ''F'']"

record cutState =
  rankIds :: "string list"
  pos :: nat
  chosen :: "string \<rightharpoonup> int"
  cursor :: int

text \<open>\<^verbatim>\<open>CUTOFF_TIERS[cutState.pos]\<close>; past the end JavaScript yields \<^verbatim>\<open>undefined\<close>, which as an
  object key is the string "undefined".\<close>

definition tierAt :: "nat \<Rightarrow> string" where
  "tierAt p = (if p < length CUTOFF_TIERS then CUTOFF_TIERS ! p else ''undefined'')"

text \<open>\<^verbatim>\<open>cutState.chosen[t] || 0\<close>\<close>

definition chosenOr0 :: "cutState \<Rightarrow> string \<Rightarrow> int" where
  "chosenOr0 cs t = (case chosen cs t of None \<Rightarrow> 0 | Some c \<Rightarrow> c)"

text \<open>\<^verbatim>\<open>startCutoffs\<close>: refuses an empty ranking, otherwise starts at the first tier.\<close>

definition startCutoffs :: "string list \<Rightarrow> cutState option" where
  "startCutoffs ranking =
     (if ranking = [] then None
      else Some \<lparr>rankIds = ranking, pos = 0, chosen = Map.empty, cursor = 0\<rparr>)"

text \<open>
  \<^verbatim>\<open>applyCut(value)\<close>: \<^verbatim>\<open>Number(value||0)|0\<close> is a 32-bit signed integer; the argument here
  is that integer. \<^verbatim>\<open>count = Math.max(0, Math.min(remaining, ...))\<close>.
\<close>

definition remaining :: "cutState \<Rightarrow> int" where
  "remaining cs = int (length (rankIds cs)) - cursor cs"

definition cutCount :: "cutState \<Rightarrow> 32 word \<Rightarrow> int" where
  "cutCount cs v = max 0 (min (remaining cs) (sint v))"

definition applyCut :: "32 word \<Rightarrow> cutState \<Rightarrow> cutState" where
  "applyCut v cs = cs\<lparr>chosen := (chosen cs)(tierAt (pos cs) \<mapsto> cutCount cs v)\<rparr>"

definition nextCut :: "32 word \<Rightarrow> cutState \<Rightarrow> cutState" where
  "nextCut v cs =
     (let cs1 = applyCut v cs;
          cs2 = cs1\<lparr>cursor := cursor cs1 + chosenOr0 cs1 (tierAt (pos cs1))\<rparr>
      in if pos cs2 < length CUTOFF_TIERS - 1 then cs2\<lparr>pos := pos cs2 + 1\<rparr> else cs2)"

definition prevCut :: "cutState \<Rightarrow> cutState" where
  "prevCut cs =
     (if pos cs = 0 then cs
      else cs\<lparr>pos := pos cs - 1, cursor := cursor cs - chosenOr0 cs (tierAt (pos cs - 1))\<rparr>)"

datatype cutInput = NextCut "32 word" | PrevCut

fun cutStep :: "cutState \<Rightarrow> cutInput \<Rightarrow> cutState" where
  "cutStep cs (NextCut v) = nextCut v cs"
| "cutStep cs PrevCut = prevCut cs"

text \<open>
  \<^verbatim>\<open>applyCutoffsToTiers\<close>: the \<^verbatim>\<open>forEach\<close> over \<^verbatim>\<open>CUTOFF_TIERS\<close> with its own local cursor;
  \<^verbatim>\<open>ids.slice(cursor, cursor + n)\<close> is \<open>take n (drop cursor ids)\<close>. The result lists the
  tiers in the order of the object literal, \<^verbatim>\<open>Unplaced\<close> last.
\<close>

fun cutTiers :: "string list \<Rightarrow> cutState \<Rightarrow> nat \<Rightarrow> string list \<Rightarrow> (string \<times> string list) list \<times> nat" where
  "cutTiers ids cs cur [] = ([], cur)"
| "cutTiers ids cs cur (t # ts) =
     (let n = nat (max 0 (min (int (length ids) - int cur) (chosenOr0 cs t)));
          (rest, cur') = cutTiers ids cs (cur + n) ts
      in ((t, take n (drop cur ids)) # rest, cur'))"

definition applyCutoffsToTiers :: "cutState \<Rightarrow> (string \<times> string list) list" where
  "applyCutoffsToTiers cs =
     (let ids = rankIds cs;
          (tiers, cur) = cutTiers ids cs 0 CUTOFF_TIERS
      in tiers @ [(''Unplaced'', drop cur ids)])"

text \<open>The Apply button: \<^verbatim>\<open>applyCut($('#cutoffs-count').value); applyCutoffsToTiers();\<close>\<close>

definition applyButton :: "32 word \<Rightarrow> cutState \<Rightarrow> (string \<times> string list) list" where
  "applyButton v cs = applyCutoffsToTiers (applyCut v cs)"

definition tierSizes :: "(string \<times> string list) list \<Rightarrow> nat" where
  "tierSizes tiers = sum_list (map (\<lambda>p. length (snd p)) tiers)"


section \<open>Seeded shuffle (app.js, lines 57-91)\<close>

text \<open>
  \<^verbatim>\<open>seededRandom(seed)\<close>: \<^verbatim>\<open>let state = seed >>> 0 || 1\<close>. A missing argument is
  \<^verbatim>\<open>undefined\<close>, which \<^verbatim>\<open>>>> 0\<close> turns into 0. The argument is \<open>None\<close> for
  \<^verbatim>\<open>undefined\<close> and \<open>Some n\<close> for an integer seed. The value is the generator's first state.
\<close>

definition seededRandom :: "int option \<Rightarrow> 32 word" where
  "seededRandom seed =
     (let s = (case seed of None \<Rightarrow> 0 | Some n \<Rightarrow> word_of_int n)
      in if s = 0 then 1 else s)"

text \<open>
  One call of the closure. \<^verbatim>\<open>>>\<close> is the sign-propagating shift, and
  \<^verbatim>\<open>state & 0xffffffff\<close> is a signed 32-bit value, so the number returned is
  \<open>sint state / 2^32\<close>; \<open>rand\<close> returns its numerator and the new state.
\<close>

definition rand :: "32 word \<Rightarrow> int \<times> 32 word" where
  "rand st =
     (let x1 = st XOR push_bit 13 st;
          x2 = x1 XOR signed_drop_bit 17 x1;
          x3 = x2 XOR push_bit 5 x2
      in (sint x3, x3))"

text \<open>\<^verbatim>\<open>Math.floor(rand() * k)\<close> for an integer \<open>k\<close> (the product is exact in double
  precision for every \<open>k\<close> below \<open>2^21\<close>).\<close>

definition floorMul :: "int \<Rightarrow> int \<Rightarrow> int" where
  "floorMul r k = (r * k) div 2 ^ 32"

record person =
  person_id :: string
  person_name :: string

text \<open>\<^verbatim>\<open>if (v && typeof v === 'object' && v.id) a.push(v)\<close>; \<open>None\<close> is an entry that is
  not an object, and the empty string is the only falsy id.\<close>

fun keepValid :: "person option list \<Rightarrow> person list" where
  "keepValid [] = []"
| "keepValid (None # vs) = keepValid vs"
| "keepValid (Some p # vs) = (if person_id p = [] then keepValid vs else p # keepValid vs)"

text \<open>The inner loop \<^verbatim>\<open>for (let i = a.length - 1; i > 0; i--)\<close>, started at \<open>i\<close>.
  \<^verbatim>\<open>a[j]\<close> is \<^verbatim>\<open>undefined\<close> (falsy) for a negative \<open>j\<close>.\<close>

fun shufflePass :: "nat \<Rightarrow> 'a list \<Rightarrow> 32 word \<Rightarrow> 'a list \<times> 32 word" where
  "shufflePass 0 a st = (a, st)"
| "shufflePass (Suc k) a st =
     (let (r, st') = rand st;
          j = floorMul r (int (Suc k) + 1);
          a' = (if Suc k < length a \<and> 0 \<le> j \<and> nat j < length a
                then a[Suc k := a ! nat j, nat j := a ! Suc k] else a)
      in shufflePass k a' st')"

lemma rand_upper: "fst (rand st) < 2 ^ 31"
proof -
  have "sint w < 2 ^ 31" for w :: "32 word"
    using sint_lt [of w] by simp
  then show ?thesis by (simp add: rand_def Let_def)
qed

lemma floorMul_3: "r < 2 ^ 31 \<Longrightarrow> floorMul r 3 \<le> 1"
  by (simp add: floorMul_def)

text \<open>The outer loop \<^verbatim>\<open>for (let n = 0; n < 2 + Math.floor(rand() * 3); n++)\<close>; the bound is
  drawn again at every test.\<close>

function shuffleRounds :: "nat \<Rightarrow> 'a list \<Rightarrow> 32 word \<Rightarrow> 'a list" where
  "shuffleRounds n a st =
     (let (r, st1) = rand st
      in if int n < 2 + floorMul r 3
         then (let (a', st2) = shufflePass (length a - 1) a st1 in shuffleRounds (Suc n) a' st2)
         else a)"
  by pat_completeness auto
termination
proof (relation "measure (\<lambda>(n, a, st). 3 - n)", goal_cases)
  case 1
  show ?case by simp
next
  case (2 n a st x r st1 y a' st2)
  have "r = fst (rand st)" using 2 by (metis fst_conv)
  then have "floorMul r 3 \<le> 1" using rand_upper [of st] floorMul_3 by simp
  with 2 show ?case by simp
qed

definition seededShuffle :: "person option list \<Rightarrow> int option \<Rightarrow> person list" where
  "seededShuffle array seed = shuffleRounds 0 (keepValid array) (seededRandom None)"


section \<open>ELO pair budget (app.js, lines 612-653)\<close>

text \<open>\<^verbatim>\<open>Math.ceil(Math.log2(n))\<close> for an integer \<open>n \<ge> 1\<close>: the least \<open>h\<close> with \<open>n \<le> 2^h\<close>.\<close>

fun ceilLog2 :: "nat \<Rightarrow> nat" where
  "ceilLog2 n = (if n \<le> 1 then 0 else Suc (ceilLog2 ((n + 1) div 2)))"

declare ceilLog2.simps [simp del]

text \<open>\<^verbatim>\<open>Math.round\<close> rounds halves up.\<close>

definition mathRound :: "rat \<Rightarrow> int" where
  "mathRound x = \<lfloor>x + 1 / 2\<rfloor>"

definition estimateEloPairTarget :: "nat \<Rightarrow> int" where
  "estimateEloPairTarget n =
     (if n \<le> 1 then 0
      else max (int n - 1) (mathRound (3 / 2 * of_nat n * of_nat (ceilLog2 n))))"

text \<open>The intensity branch of \<^verbatim>\<open>initElo\<close>: \<open>(multiplier, kFactor)\<close>;
  \<^verbatim>\<open>state.sorter.eloIntensity || 'balanced'\<close>.\<close>

definition eloIntensityParams :: "string \<Rightarrow> rat \<times> nat" where
  "eloIntensityParams intensity0 =
     (let intensity = (if intensity0 = [] then ''balanced'' else intensity0)
      in if intensity = ''fast'' then (6 / 10, 40)
         else if intensity = ''balanced'' then (1, 32)
         else if intensity = ''accurate'' then (3 / 2, 24)
         else (1, 32))"

text \<open>\<^verbatim>\<open>extra = Math.max(0, Math.round((multiplier - 1) * basePairs))\<close>,
  \<^verbatim>\<open>totalPairs: basePairs + extra\<close>, for \<open>n\<close> candidate ids.\<close>

definition initElo_totalPairs :: "string \<Rightarrow> nat \<Rightarrow> int" where
  "initElo_totalPairs intensity n =
     (let basePairs = estimateEloPairTarget n;
          multiplier = fst (eloIntensityParams intensity);
          extra = max 0 (mathRound ((multiplier - 1) * of_int basePairs))
      in basePairs + extra)"

definition initElo_kFactor :: "string \<Rightarrow> nat" where
  "initElo_kFactor intensity = snd (eloIntensityParams intensity)"


section \<open>Sorter state, comparison cache and undo snapshots (app.js, lines 181-215, 495-549, 739-793)\<close>

text \<open>
  The MergeSort resumption frame \<^verbatim>\<open>state.sorter.stack\<close>:
  \<^verbatim>\<open>{ width, i, arr, L, R, out, li, rj }\<close>, lists of candidate ids and cursors.
\<close>

record frame =
  st_width :: nat
  st_i :: nat
  st_arr :: "string list"
  st_L :: "string list"
  st_R :: "string list"
  st_out :: "string list"
  st_li :: nat
  st_rj :: nat

text \<open>
  The snapshot object built by \<^verbatim>\<open>pushUndoSnapshot\<close>. The cache and the tie set are
  JavaScript objects keyed by the string \<^verbatim>\<open>"A|B"\<close>: association lists in insertion order.
  The ELO state is a parameter \<open>'e\<close>; the merge driver never looks inside it.
\<close>

record 'e snapshot =
  snap_mode :: string
  snap_active :: bool
  snap_totalComparisons :: int
  snap_stack :: "frame option"
  snap_cache :: "(string \<times> int) list"
  snap_ties :: "(string \<times> bool) list"
  snap_elo :: "'e option"

text \<open>Control points of the suspended \<^verbatim>\<open>continueSort\<close>: the top of the outer
  \<^verbatim>\<open>while\<close>, the top of the inner \<^verbatim>\<open>while\<close>, the pending \<^verbatim>\<open>await prefer(a, b)\<close>, the
  end of the function, and the rejected promise.\<close>

datatype pc = AtOuter | AtInner | Waiting string string | Finished | Threw

text \<open>
  The global \<^verbatim>\<open>state\<close> as far as the sorter uses it (\<open>data\<close> holds the ids of
  \<^verbatim>\<open>state.data\<close>, the keys of \<^verbatim>\<open>idMap\<close>), together with the two locals of
  \<^verbatim>\<open>continueSort\<close> that survive a suspension: \<^verbatim>\<open>N\<close> and the control point. The local
  \<^verbatim>\<open>st\<close> is the same object as \<^verbatim>\<open>state.sorter.stack\<close>.
\<close>

record 'e sorter =
  data :: "string list"
  mode :: string
  active :: bool
  totalComparisons :: "int option"
  stack :: "frame option"
  cache :: "(string \<times> int) list"
  ties :: "(string \<times> bool) list"
  undo :: "'e snapshot list"
  elo :: "'e option"
  result :: "string list option"
  N :: nat
  pc :: pc

text \<open>\<^verbatim>\<open>function keyFor(a, b) { return `${a.id}|${b.id}`; }\<close>\<close>

definition keyFor :: "string \<Rightarrow> string \<Rightarrow> string" where
  "keyFor a b = a @ ''|'' @ b"

text \<open>What the prompt resolves to: \<^verbatim>\<open>1\<close>, \<^verbatim>\<open>0\<close>, \<^verbatim>\<open>-1\<close>, \<^verbatim>\<open>null\<close> (skip) or
  \<^verbatim>\<open>'BACK'\<close>; and the five buttons.\<close>

datatype res = Num int | Null | BACK

datatype choice = Left | Tie | Right | Skip | Back

fun valueOf :: "choice \<Rightarrow> res" where
  "valueOf Left = Num 1"
| "valueOf Tie = Num 0"
| "valueOf Right = Num (- 1)"
| "valueOf Skip = Null"
| "valueOf Back = BACK"

text \<open>\<^verbatim>\<open>val === 1 ? -1 : val === -1 ? 1 : 0\<close>\<close>

definition inverseVal :: "int \<Rightarrow> int" where
  "inverseVal v = (if v = 1 then - 1 else if v = - 1 then 1 else 0)"

text \<open>\<^verbatim>\<open>finish(val)\<close> inside \<^verbatim>\<open>prefer(a, b)\<close>: the writes to the cache and the tie set.\<close>

definition finish :: "string \<Rightarrow> string \<Rightarrow> res \<Rightarrow> 'e sorter \<Rightarrow> 'e sorter" where
  "finish a b val s =
     (case val of
        Num v \<Rightarrow>
          (let k = keyFor a b; k' = keyFor b a;
               c = AList.update k' (inverseVal v) (AList.update k v (cache s));
               t = (if v = 0 then AList.update k' True (AList.update k True (ties s)) else ties s)
           in s\<lparr>cache := c, ties := t\<rparr>)
      | _ \<Rightarrow> s)"

text \<open>\<^verbatim>\<open>pushUndoSnapshot\<close>: \<^verbatim>\<open>JSON.parse(JSON.stringify(x))\<close> copies a value, which is the
  identity on values; \<^verbatim>\<open>splice(0, length - MAX_UNDO)\<close> removes from the front.\<close>

definition MAX_UNDO :: nat where
  "MAX_UNDO = 2000"

definition snapshotOf :: "'e sorter \<Rightarrow> 'e snapshot" where
  "snapshotOf s =
     \<lparr>snap_mode = mode s, snap_active = active s,
      snap_totalComparisons = (case totalComparisons s of None \<Rightarrow> 0 | Some n \<Rightarrow> n),
      snap_stack = stack s, snap_cache = cache s, snap_ties = ties s, snap_elo = elo s\<rparr>"

definition pushUndoSnapshot :: "'e sorter \<Rightarrow> 'e sorter" where
  "pushUndoSnapshot s =
     (let u = undo s @ [snapshotOf s]
      in s\<lparr>undo := (if length u > MAX_UNDO then drop (length u - MAX_UNDO) u else u)\<rparr>)"

text \<open>\<^verbatim>\<open>restoreFromUndo\<close>: with fewer than two snapshots nothing happens and the result
  is \<^verbatim>\<open>false\<close>; otherwise the top is popped and the snapshot below it is restored.\<close>

definition restoreFromUndo :: "'e sorter \<Rightarrow> bool \<times> 'e sorter" where
  "restoreFromUndo s =
     (if length (undo s) < 2 then (False, s)
      else (let u = butlast (undo s); prev = last u
            in (True, s\<lparr>undo := u,
                        mode := (if snap_mode prev = [] then mode s else snap_mode prev),
                        active := snap_active prev,
                        totalComparisons := Some (snap_totalComparisons prev),
                        stack := snap_stack prev,
                        cache := snap_cache prev,
                        ties := snap_ties prev,
                        elo := snap_elo prev\<rparr>)))"


section \<open>Progress bound (app.js, lines 400-412, 958-971)\<close>

definition totalComparisonUpperBound :: "nat \<Rightarrow> int" where
  "totalComparisonUpperBound n =
     (if n \<le> 1 then 0
      else (let h = ceilLog2 (max 1 n) in int n * int h - (2 ^ h - 1)))"

text \<open>\<^verbatim>\<open>k.split('|')\<close>\<close>

fun splitPipe :: "string \<Rightarrow> string list" where
  "splitPipe [] = [[]]"
| "splitPipe (c # cs) =
     (if c = CHR ''|'' then [] # splitPipe cs
      else (case splitPipe cs of [] \<Rightarrow> [[c]] | p # ps \<Rightarrow> (c # p) # ps))"

text \<open>\<^verbatim>\<open>countUniqueCachePairs\<close>: a key that does not split in two is passed over, the
  others are put in canonical order; the result is the size of the set of canonical keys.\<close>

definition canonOf :: "string \<Rightarrow> string list" where
  "canonOf k =
     (case splitPipe k of
        [a, b] \<Rightarrow> [if a < b then keyFor a b else keyFor b a]
      | _ \<Rightarrow> [])"

fun canonKeys :: "string list \<Rightarrow> string list" where
  "canonKeys [] = []"
| "canonKeys (k # ks) = canonOf k @ canonKeys ks"

definition countUniqueCachePairs :: "(string \<times> int) list \<Rightarrow> nat" where
  "countUniqueCachePairs c = length (remdups (canonKeys (map fst c)))"


section \<open>Resumable merge sort (app.js, lines 571-609, 795-956)\<close>

text \<open>\<^verbatim>\<open>objsOf(ids, idMap)\<close> keeps the ids that \<^verbatim>\<open>idMap\<close> knows; \<^verbatim>\<open>idsOf(...).filter(Boolean)\<close>
  maps the objects back to their ids and drops the empty id.\<close>

definition objsOf :: "string list \<Rightarrow> string list \<Rightarrow> string list" where
  "objsOf ids dat = filter (\<lambda>x. x \<in> set dat) ids"

definition idsOf :: "string list \<Rightarrow> string list" where
  "idsOf xs = filter (\<lambda>x. x \<noteq> []) xs"

text \<open>\<^verbatim>\<open>initSort(items)\<close>, on the ids of the items; an empty list throws.\<close>

definition initSort :: "string list \<Rightarrow> 'e sorter \<Rightarrow> 'e sorter option" where
  "initSort items s =
     (if items = [] then None
      else (let ids = idsOf items;
                s1 = s\<lparr>active := True, result := None,
                       stack := Some \<lparr>st_width = 1, st_i = 0, st_arr = ids, st_L = [], st_R = [],
                                      st_out = [], st_li = 0, st_rj = 0\<rparr>,
                       totalComparisons := Some (totalComparisonUpperBound (length ids)),
                       undo := []\<rparr>
            in Some (pushUndoSnapshot s1)))"

text \<open>Entering \<^verbatim>\<open>continueSort\<close>: \<^verbatim>\<open>if (!st) return; const N = st.arr.length;\<close>\<close>

definition continueSort :: "'e sorter \<Rightarrow> 'e sorter" where
  "continueSort s =
     (case stack s of
        None \<Rightarrow> s\<lparr>pc := Finished\<rparr>
      | Some st \<Rightarrow> s\<lparr>N := length (st_arr st), pc := AtOuter\<rparr>)"

definition setFrame :: "frame \<Rightarrow> 'e sorter \<Rightarrow> 'e sorter" where
  "setFrame st s = s\<lparr>stack := Some st\<rparr>"

text \<open>\<^verbatim>\<open>arr.slice(k)\<close> for a number \<open>k\<close> that may be negative.\<close>

definition sliceFrom :: "int \<Rightarrow> 'a list \<Rightarrow> 'a list" where
  "sliceFrom k xs = (if k < 0 then drop (nat (int (length xs) + k)) xs else drop (nat k) xs)"

text \<open>The code after the inner loop: append what is left of \<open>L\<close> and \<open>R\<close>, splice the
  merged run into \<open>arr\<close>, clear the frame and move on by \<open>2 * width\<close>.\<close>

definition afterLoop :: "frame \<Rightarrow> frame" where
  "afterLoop st =
     (let out1 = st_out st @ drop (st_li st) (st_L st);
          li1 = max (st_li st) (length (st_L st));
          out2 = out1 @ drop (st_rj st) (st_R st);
          rj1 = max (st_rj st) (length (st_R st));
          segLen = int (length out2) + (int (length (st_L st)) - int li1)
                     + (int (length (st_R st)) - int rj1);
          before = take (st_i st) (st_arr st);
          after = sliceFrom (int (st_i st) + segLen) (st_arr st)
      in st\<lparr>st_arr := before @ out2 @ after, st_L := [], st_R := [], st_out := [],
            st_li := 0, st_rj := 0, st_i := st_i st + 2 * st_width st\<rparr>)"

text \<open>\<^verbatim>\<open>if (st.L.length === 0 && st.R.length === 0) { ... }\<close>\<close>

definition prepare :: "string list \<Rightarrow> frame \<Rightarrow> frame" where
  "prepare dat st =
     (if st_L st = [] \<and> st_R st = [] then
        (let arrObjs = objsOf (st_arr st) dat
         in st\<lparr>st_L := idsOf (take (st_width st) (drop (st_i st) arrObjs)),
               st_R := idsOf (take (st_width st) (drop (st_i st + st_width st) arrObjs)),
               st_out := [], st_li := 0, st_rj := 0\<rparr>)
      else st)"

text \<open>\<^verbatim>\<open>if (st.R.length === 0) { ... continue; }\<close>\<close>

definition fastForward :: "frame \<Rightarrow> frame" where
  "fastForward st =
     st\<lparr>st_arr := take (st_i st) (st_arr st) @ st_L st @ drop (st_i st + length (st_L st)) (st_arr st),
        st_L := [], st_R := [], st_out := [], st_li := 0, st_rj := 0,
        st_i := st_i st + 2 * st_width st\<rparr>"

text \<open>One turn of the outer loop up to the inner loop, or the end of \<^verbatim>\<open>continueSort\<close>.\<close>

definition outerStep :: "'e sorter \<Rightarrow> 'e sorter" where
  "outerStep s =
     (case stack s of
        None \<Rightarrow> s
      | Some st \<Rightarrow>
          if st_width st < N s then
            (if st_i st \<ge> length (st_arr st)
             then setFrame (st\<lparr>st_width := st_width st * 2, st_i := 0\<rparr>) s
             else (let st1 = prepare (data s) st
                   in if st_R st1 = [] then setFrame (fastForward st1) s
                      else (setFrame st1 s)\<lparr>pc := AtInner\<rparr>))
          else s\<lparr>active := False, result := Some (objsOf (st_arr st) (data s)),
                 stack := None, pc := Finished\<rparr>)"

text \<open>The skip branch: on one against one the left element is emitted; otherwise both
  current elements are moved to the ends of their lists.\<close>

definition spliceToEnd :: "nat \<Rightarrow> 'a list \<Rightarrow> 'a list" where
  "spliceToEnd k xs = (if k < length xs then take k xs @ drop (Suc k) xs @ [xs ! k] else xs)"

definition skipPair :: "frame \<Rightarrow> frame" where
  "skipPair st =
     (if int (length (st_L st)) - int (st_li st) = 1 \<and> int (length (st_R st)) - int (st_rj st) = 1
      then st\<lparr>st_out := st_out st @ [st_L st ! st_li st], st_li := st_li st + 1\<rparr>
      else st\<lparr>st_L := spliceToEnd (st_li st) (st_L st), st_R := spliceToEnd (st_rj st) (st_R st)\<rparr>)"

text \<open>The code after \<^verbatim>\<open>await prefer(a, b)\<close>, for the value it resolved to. After a
  successful restore \<^verbatim>\<open>Object.assign(st, state.sorter.stack)\<close> copies the restored frame
  (nothing when that is \<^verbatim>\<open>null\<close>) and \<^verbatim>\<open>state.sorter.stack = st\<close>.

  \<^verbatim>\<open>restoreFromUndo\<close> assigns the arrays, the cache and the tie set of the snapshot
  themselves, so the live state shares them with the entry now on top of the undo stack.
  The restored cursors are those of a prompt, and for two known, different ids the loop
  comes to that prompt again: the next statement that writes into the shared objects
  (\<^verbatim>\<open>st.out.push\<close>, \<^verbatim>\<open>st.L.splice\<close>, a write of \<^verbatim>\<open>finish\<close>) runs after a click, hence
  after the \<^verbatim>\<open>pushUndoSnapshot\<close> of the prompt has put a fresh copy above the shared entry; a restore reads the entry under the top,
  which is that copy, or the shared entry when no click came in between. The values a
  restore reads are therefore those of the lists below, and the model keeps the snapshots
  as values.\<close>

definition applyRes :: "res \<Rightarrow> 'e sorter \<Rightarrow> 'e sorter" where
  "applyRes r s =
     (case stack s of
        None \<Rightarrow> s
      | Some st \<Rightarrow>
          (case r of
             BACK \<Rightarrow>
               (let (ok, s1) = restoreFromUndo s
                in if ok then (setFrame (case stack s1 of None \<Rightarrow> st | Some st' \<Rightarrow> st') s1)\<lparr>pc := AtInner\<rparr>
                   else s\<lparr>pc := AtInner\<rparr>)
           | Null \<Rightarrow> (setFrame (skipPair st) s)\<lparr>pc := AtInner\<rparr>
           | Num v \<Rightarrow>
               (if v \<ge> 0
                then (setFrame (st\<lparr>st_out := st_out st @ [st_L st ! st_li st], st_li := st_li st + 1\<rparr>) s)\<lparr>pc := AtInner\<rparr>
                else (setFrame (st\<lparr>st_out := st_out st @ [st_R st ! st_rj st], st_rj := st_rj st + 1\<rparr>) s)\<lparr>pc := AtInner\<rparr>)))"

text \<open>\<^verbatim>\<open>pushUndoSnapshot(); let res = await prefer(a, b);\<close> A cached pair resolves at once,
  without a prompt.\<close>

definition ask :: "string \<Rightarrow> string \<Rightarrow> 'e sorter \<Rightarrow> 'e sorter" where
  "ask a b s =
     (let s1 = pushUndoSnapshot s
      in case map_of (cache s1) (keyFor a b) of
           Some v \<Rightarrow> applyRes (Num v) s1
         | None \<Rightarrow> s1\<lparr>pc := Waiting a b\<rparr>)"

text \<open>One turn of the inner loop up to the prompt. An id that \<^verbatim>\<open>idMap\<close> does not know is
  stepped over; after the self-match guard \<open>b\<close> is read again without a check, and
  \<^verbatim>\<open>keyFor\<close> throws on \<^verbatim>\<open>undefined\<close>.\<close>

definition innerStep :: "'e sorter \<Rightarrow> 'e sorter" where
  "innerStep s =
     (case stack s of
        None \<Rightarrow> s
      | Some st \<Rightarrow>
          if st_li st < length (st_L st) \<and> st_rj st < length (st_R st) then
            (let a = st_L st ! st_li st; b = st_R st ! st_rj st
             in if a \<notin> set (data s) then setFrame (st\<lparr>st_li := st_li st + 1\<rparr>) s
                else if b \<notin> set (data s) then setFrame (st\<lparr>st_rj := st_rj st + 1\<rparr>) s
                else if a = b then
                  (let st1 = st\<lparr>st_rj := st_rj st + 1\<rparr>
                   in if st_rj st1 \<ge> length (st_R st1)
                      then (setFrame (afterLoop st1) s)\<lparr>pc := AtOuter\<rparr>
                      else (let b' = st_R st1 ! st_rj st1
                            in if b' \<notin> set (data s)
                               then (pushUndoSnapshot (setFrame st1 s))\<lparr>pc := Threw\<rparr>
                               else ask a b' (setFrame st1 s)))
                else ask a b s)
          else (setFrame (afterLoop st) s)\<lparr>pc := AtOuter\<rparr>)"

text \<open>The user's click on a pending prompt: \<^verbatim>\<open>finish(val)\<close>, then the driver resumes.\<close>

definition answer :: "choice \<Rightarrow> 'e sorter \<Rightarrow> 'e sorter" where
  "answer c s =
     (case pc s of
        Waiting a b \<Rightarrow> applyRes (valueOf c) (finish a b (valueOf c) s)
      | _ \<Rightarrow> s)"

text \<open>
  The driver against a list of clicks. Each turn of a loop costs one unit of fuel; the
  run stops at a prompt when the clicks are used up, at the end of \<^verbatim>\<open>continueSort\<close>, or
  when the fuel is.
\<close>

fun run :: "nat \<Rightarrow> 'e sorter \<Rightarrow> choice list \<Rightarrow> 'e sorter" where
  "run 0 s cs = s"
| "run (Suc n) s cs =
     (case pc s of
        AtOuter \<Rightarrow> run n (outerStep s) cs
      | AtInner \<Rightarrow> run n (innerStep s) cs
      | Waiting a b \<Rightarrow> (case cs of [] \<Rightarrow> s | c # cs' \<Rightarrow> run n (answer c s) cs')
      | Finished \<Rightarrow> s
      | Threw \<Rightarrow> s)"

text \<open>\<^verbatim>\<open>defaultState()\<close> with the loaded candidates, as \<^verbatim>\<open>startSorting\<close> sets it up.\<close>

definition defaultState :: "string list \<Rightarrow> 'e sorter" where
  "defaultState dat =
     \<lparr>data = dat, mode = ''merge'', active = False, totalComparisons = None, stack = None,
      cache = [], ties = [], undo = [], elo = None, result = None, N = 0, pc = Finished\<rparr>"

text \<open>\<^verbatim>\<open>initSort(items); await continueSort();\<close> on a fresh state.\<close>

definition startSorting :: "string list \<Rightarrow> string list \<Rightarrow> 'e sorter option" where
  "startSorting dat items = map_option continueSort (initSort items (defaultState dat))"

text \<open>A run of the whole driver on fresh state: the candidates are the loaded data.\<close>

definition sortRun :: "string list \<Rightarrow> choice list \<Rightarrow> nat \<Rightarrow> unit sorter option" where
  "sortRun items cs fuel = map_option (\<lambda>s. run fuel s cs) (startSorting items items)"

definition abcd :: "choice list \<Rightarrow> unit sorter option" where
  "abcd cs = sortRun [''A'', ''B'', ''C'', ''D''] cs 40"


section \<open>Elimination picker (PresidentialPicker, lines 1513-1936)\<close>

text \<open>
  The snapshot that \<^verbatim>\<open>getStateSnapshot\<close> serialises, and the picker object. An eliminated
  entry \<^verbatim>\<open>{ id, eliminatedBy }\<close> is a pair. \<^verbatim>\<open>Math.random\<close> is a tape of numbers that
  \<^verbatim>\<open>shuffle\<close> consumes; \<open>allItems\<close> holds the ids of the items.
\<close>

record pickerSnapshot =
  hs_eliminated :: "(string \<times> string list) list"
  hs_survived :: "string list"
  hs_current :: "string list"
  hs_evaluating :: "string list"
  hs_favorites :: "string list"
  hs_batchSize :: nat
  hs_pickCount :: nat

record picker =
  allItems :: "string list"
  eliminated :: "(string \<times> string list) list"
  survived :: "string list"
  current :: "string list"
  evaluating :: "string list"
  favorites :: "string list"
  history :: "pickerSnapshot list"
  historyIndex :: int
  batchSize :: nat
  pickCount :: nat
  tape :: "nat list"

text \<open>Fisher-Yates, \<^verbatim>\<open>for (let i = arr.length - 1; i > 0; i--)\<close>, started at \<open>i\<close>;
  \<^verbatim>\<open>Math.floor(Math.random() * (i + 1))\<close> is the next number of the tape reduced below
  \<open>i + 1\<close> (0 once the tape is used up).\<close>

fun shuffleFrom :: "nat \<Rightarrow> 'a list \<Rightarrow> nat list \<Rightarrow> 'a list \<times> nat list" where
  "shuffleFrom 0 arr t = (arr, t)"
| "shuffleFrom (Suc k) arr t =
     (let r = (case t of [] \<Rightarrow> 0 | x # _ \<Rightarrow> x);
          j = r mod (Suc k + 1);
          arr' = (if Suc k < length arr then arr[Suc k := arr ! j, j := arr ! Suc k] else arr)
      in shuffleFrom k arr' (tl t))"

definition shuffle :: "'a list \<Rightarrow> nat list \<Rightarrow> 'a list \<times> nat list" where
  "shuffle arr t = shuffleFrom (length arr - 1) arr t"

text \<open>\<^verbatim>\<open>calculateBatchSize\<close>: \<^verbatim>\<open>Math.ceil(remaining / 2)\<close> clamped to 2..6.\<close>

definition calculateBatchSize :: "nat \<Rightarrow> nat" where
  "calculateBatchSize n = max 2 (min 6 ((n + 1) div 2))"

text \<open>
  The loop of \<^verbatim>\<open>removeFromEliminated\<close>, which runs from the last entry to the first: the
  entries that stay, and the ids restored in the order they are pushed to \<open>survived\<close>.
  \<^verbatim>\<open>indexOf\<close> and \<^verbatim>\<open>splice(idx, 1)\<close> remove the first occurrence.
\<close>

fun unlockLoop :: "string \<Rightarrow> (string \<times> string list) list \<Rightarrow> (string \<times> string list) list \<times> string list" where
  "unlockLoop fav [] = ([], [])"
| "unlockLoop fav (e # es) =
     (let (kept, restored) = unlockLoop fav es
      in if fav \<in> set (snd e)
         then (if remove1 fav (snd e) = [] then (kept, restored @ [fst e])
               else ((fst e, remove1 fav (snd e)) # kept, restored))
         else (e # kept, restored))"

definition removeFromEliminated :: "string \<Rightarrow> picker \<Rightarrow> picker" where
  "removeFromEliminated favoriteId p =
     (let (kept, restored) = unlockLoop favoriteId (eliminated p);
          p1 = p\<lparr>eliminated := kept, survived := survived p @ restored\<rparr>
      in if length restored = 0 \<and> eliminated p1 \<noteq> [] \<and> current p1 = [] \<and> survived p1 = []
         then p1\<lparr>survived := survived p1 @ map fst (eliminated p1), eliminated := []\<rparr>
         else p1)"

definition addToFavorites :: "string \<Rightarrow> picker \<Rightarrow> picker" where
  "addToFavorites i p =
     removeFromEliminated i (if i \<in> set (favorites p) then p else p\<lparr>favorites := favorites p @ [i]\<rparr>)"

text \<open>\<^verbatim>\<open>nextRound\<close> up to its last statement, the call of \<^verbatim>\<open>nextBatch\<close>.\<close>

definition nextRoundCore :: "picker \<Rightarrow> picker" where
  "nextRoundCore p =
     (let p1 = (case survived p of
                  [newFavorite] \<Rightarrow>
                    if current p = [] then addToFavorites newFavorite (p\<lparr>survived := []\<rparr>) else p
                | _ \<Rightarrow> p);
          (sh, t') = shuffle (survived p1) (tape p1);
          cur = current p1 @ sh
      in p1\<lparr>current := cur, survived := [], batchSize := calculateBatchSize (length cur), tape := t'\<rparr>)"

text \<open>The safety check at the head of \<^verbatim>\<open>nextBatch\<close>.\<close>

definition restoreIfStuck :: "picker \<Rightarrow> picker" where
  "restoreIfStuck p =
     (if current p = [] \<and> survived p = [] \<and> eliminated p \<noteq> []
      then p\<lparr>survived := survived p @ map fst (eliminated p), eliminated := []\<rparr>
      else p)"

lemma unlockLoop_Nil: "unlockLoop fav es = (kept, restored) \<Longrightarrow> es = [] \<Longrightarrow> kept = []"
  by simp

lemma nextRoundCore_survived: "survived (nextRoundCore p) = []"
  by (simp add: nextRoundCore_def Let_def split: prod.splits)

lemma removeFromEliminated_Nil: "eliminated p = [] \<Longrightarrow> eliminated (removeFromEliminated i p) = []"
  by (simp add: removeFromEliminated_def Let_def)

lemma nextRoundCore_eliminated: "eliminated p = [] \<Longrightarrow> eliminated (nextRoundCore p) = []"
  by (auto simp: nextRoundCore_def Let_def addToFavorites_def removeFromEliminated_Nil
      split: prod.splits list.splits)

text \<open>The termination measure of \<^verbatim>\<open>nextBatch\<close>: a new round empties \<open>survived\<close>, and only
  the safety check can fill it again, which empties \<open>eliminated\<close> for good.\<close>

definition roundsLeft :: "picker \<Rightarrow> nat" where
  "roundsLeft p = (if eliminated p = [] then 0 else 2) + (if survived p = [] then 0 else 1)"

text \<open>\<^verbatim>\<open>nextBatch\<close>; \<^verbatim>\<open>nextRound\<close> ends by calling it again.
  \<^verbatim>\<open>this.current.splice(0, this.batchSize)\<close> takes the batch off the front.\<close>

function nextBatch :: "picker \<Rightarrow> picker" where
  "nextBatch p =
     (let p1 = restoreIfStuck p
      in if length (current p1) < batchSize p1 \<and> survived p1 \<noteq> []
         then nextBatch (nextRoundCore p1)
         else p1\<lparr>evaluating := take (batchSize p1) (current p1),
                 current := drop (batchSize p1) (current p1)\<rparr>)"
  by pat_completeness auto
termination
proof (relation "measure roundsLeft", goal_cases)
  case 1
  show ?case by simp
next
  case (2 p p1)
  have s: "survived (nextRoundCore p1) = []" by (rule nextRoundCore_survived)
  show ?case
  proof (cases "current p = [] \<and> survived p = [] \<and> eliminated p \<noteq> []")
    case True
    then have "eliminated p1 = []" using 2(1) by (simp add: restoreIfStuck_def)
    then have "eliminated (nextRoundCore p1) = []" by (rule nextRoundCore_eliminated)
    with s True show ?thesis by (simp add: roundsLeft_def)
  next
    case False
    then have e: "p1 = p" using 2(1) by (simp add: restoreIfStuck_def)
    have "eliminated p = [] \<Longrightarrow> eliminated (nextRoundCore p) = []" by (rule nextRoundCore_eliminated)
    with s 2(2) e show ?thesis by (auto simp: roundsLeft_def)
  qed
qed

declare nextBatch.simps [simp del]

definition nextRound :: "picker \<Rightarrow> picker" where
  "nextRound p = nextBatch (nextRoundCore p)"

text \<open>\<^verbatim>\<open>getStateSnapshot\<close> and \<^verbatim>\<open>restoreSnapshot\<close>: \<^verbatim>\<open>JSON.parse(JSON.stringify(x))\<close> is the
  identity on these values.\<close>

definition getStateSnapshot :: "picker \<Rightarrow> pickerSnapshot" where
  "getStateSnapshot p =
     \<lparr>hs_eliminated = eliminated p, hs_survived = survived p, hs_current = current p,
      hs_evaluating = evaluating p, hs_favorites = favorites p, hs_batchSize = batchSize p,
      hs_pickCount = pickCount p\<rparr>"

definition restoreSnapshot :: "pickerSnapshot \<Rightarrow> picker \<Rightarrow> picker" where
  "restoreSnapshot sn p =
     p\<lparr>eliminated := hs_eliminated sn, survived := hs_survived sn, current := hs_current sn,
       evaluating := hs_evaluating sn, favorites := hs_favorites sn, batchSize := hs_batchSize sn,
       pickCount := hs_pickCount sn\<rparr>"

text \<open>\<^verbatim>\<open>history.slice(0, k)\<close> for a number \<open>k\<close> that may be negative.\<close>

definition sliceTo :: "int \<Rightarrow> 'a list \<Rightarrow> 'a list" where
  "sliceTo k xs = (if k < 0 then take (nat (int (length xs) + k)) xs else take (nat k) xs)"

text \<open>\<^verbatim>\<open>pushHistory\<close>: cut the redo tail, push, and drop the oldest entry beyond 50.\<close>

definition pushHistory :: "picker \<Rightarrow> picker" where
  "pushHistory p =
     (let h1 = (if historyIndex p < int (length (history p)) - 1
                then sliceTo (historyIndex p + 1) (history p) else history p);
          h2 = h1 @ [getStateSnapshot p];
          i2 = int (length h2) - 1
      in if length h2 > 50 then p\<lparr>history := tl h2, historyIndex := i2 - 1\<rparr>
         else p\<lparr>history := h2, historyIndex := i2\<rparr>)"

text \<open>
  \<^verbatim>\<open>pick(pickedIds)\<close>. In the final-choice branch \<^verbatim>\<open>notPicked[0]\<close> is pushed; when nothing is
  left unpicked that is \<^verbatim>\<open>undefined\<close>, which is no id: the result is \<open>None\<close> there, and for
  an empty \<^verbatim>\<open>pickedIds\<close> in that branch (it cannot be: the branch needs one picked id).
\<close>

definition pick :: "string list \<Rightarrow> picker \<Rightarrow> picker option" where
  "pick pickedIds p0 =
     (let p = (pushHistory p0)\<lparr>pickCount := pickCount p0 + 1\<rparr>;
          notPicked = filter (\<lambda>i. i \<notin> set pickedIds) (evaluating p);
          totalRemaining = length (current p) + length (survived p) + length (evaluating p)
                             + length (eliminated p)
      in if totalRemaining = 2 \<and> length (evaluating p) = 2 \<and> length pickedIds = 1
         then (case (pickedIds, notPicked) of
                 (x # _, y # _) \<Rightarrow> Some (p\<lparr>favorites := favorites p @ [x, y], evaluating := []\<rparr>)
               | _ \<Rightarrow> None)
         else Some (nextBatch (p\<lparr>survived := survived p @ pickedIds,
                                  eliminated := eliminated p @ map (\<lambda>i. (i, pickedIds)) notPicked,
                                  evaluating := []\<rparr>)))"

definition pass :: "picker \<Rightarrow> picker" where
  "pass p0 =
     (let p = pushHistory p0
      in nextBatch (p\<lparr>survived := survived p @ evaluating p, evaluating := []\<rparr>))"

text \<open>
  \<^verbatim>\<open>undo\<close>. Without history it returns \<^verbatim>\<open>false\<close> and changes nothing. An index past the
  end of the history makes \<^verbatim>\<open>JSON.parse(undefined)\<close> throw: \<open>None\<close>.
\<close>

definition undoPick :: "picker \<Rightarrow> picker option" where
  "undoPick p =
     (if historyIndex p < 0 then Some p
      else (let h = (if historyIndex p = int (length (history p)) - 1
                     then history p @ [getStateSnapshot p] else history p)
            in if nat (historyIndex p) < length h
               then Some ((restoreSnapshot (h ! nat (historyIndex p)) (p\<lparr>history := h\<rparr>))
                            \<lparr>historyIndex := historyIndex p - 1\<rparr>)
               else None))"

text \<open>\<^verbatim>\<open>initialize\<close>, for the ids of the items and a tape.\<close>

definition initialize :: "string list \<Rightarrow> nat list \<Rightarrow> picker" where
  "initialize ids t =
     (let (sh, t') = shuffle ids t
      in nextBatch \<lparr>allItems = ids, eliminated = [], survived = [], current = sh, evaluating = [],
                    favorites = [], history = [], historyIndex = - 1,
                    batchSize = calculateBatchSize (length sh), pickCount = 0, tape = t'\<rparr>)"

text \<open>The user's operations on the picker, and a sequence of them; an operation that
  throws ends the sequence.\<close>

datatype pickerOp = Pick "string list" | Pass | Undo

fun pickerStep :: "picker \<Rightarrow> pickerOp \<Rightarrow> picker option" where
  "pickerStep p (Pick ids) = pick ids p"
| "pickerStep p Pass = Some (pass p)"
| "pickerStep p Undo = undoPick p"

fun pickerRun :: "picker \<Rightarrow> pickerOp list \<Rightarrow> picker option" where
  "pickerRun p [] = Some p"
| "pickerRun p (x # xs) = (case pickerStep p x of None \<Rightarrow> None | Some p' \<Rightarrow> pickerRun p' xs)"


section \<open>Properties of the tier cutoffs\<close>

lemma cutTiers_concat:
  "cur \<le> length ids \<Longrightarrow> cutTiers ids cs cur ts = (tiers, cur') \<Longrightarrow>
     cur \<le> cur' \<and> cur' \<le> length ids \<and> map fst tiers = ts
     \<and> concat (map snd tiers) = take (cur' - cur) (drop cur ids)"
proof (induction ts arbitrary: cur tiers cur')
  case Nil
  then show ?case by simp
next
  case (Cons t ts)
  define n where "n = nat (max 0 (min (int (length ids) - int cur) (chosenOr0 cs t)))"
  obtain rest c2 where rec: "cutTiers ids cs (cur + n) ts = (rest, c2)"
    by (cases "cutTiers ids cs (cur + n) ts")
  have nle: "cur + n \<le> length ids" using Cons.prems(1) by (simp add: n_def)
  from Cons.prems(2) rec have tiers: "tiers = (t, take n (drop cur ids)) # rest" and c2: "cur' = c2"
    by (simp_all add: n_def [symmetric] Let_def)
  from Cons.IH [OF nle rec] have ih: "cur + n \<le> c2" "c2 \<le> length ids" "map fst rest = ts"
    "concat (map snd rest) = take (c2 - (cur + n)) (drop (cur + n) ids)" by simp_all
  have "take n (drop cur ids) @ take (c2 - (cur + n)) (drop (cur + n) ids) = take (c2 - cur) (drop cur ids)"
  proof -
    have "c2 - cur = n + (c2 - (cur + n))" using ih(1) by simp
    then show ?thesis by (simp add: take_add add.commute)
  qed
  with ih tiers c2 show ?case by simp
qed

lemma applyCutoffsToTiers_concat:
  "concat (map snd (applyCutoffsToTiers cs)) = rankIds cs
   \<and> map fst (applyCutoffsToTiers cs) = CUTOFF_TIERS @ [''Unplaced'']"
proof -
  obtain tiers cur where ct: "cutTiers (rankIds cs) cs 0 CUTOFF_TIERS = (tiers, cur)"
    by (cases "cutTiers (rankIds cs) cs 0 CUTOFF_TIERS")
  from cutTiers_concat [OF _ ct] have "cur \<le> length (rankIds cs)" "map fst tiers = CUTOFF_TIERS"
    "concat (map snd tiers) = take cur (rankIds cs)" by simp_all
  then show ?thesis using ct by (simp add: applyCutoffsToTiers_def Let_def)
qed

lemma tierSizes_concat: "tierSizes tiers = length (concat (map snd tiers))"
  by (induction tiers) (simp_all add: tierSizes_def)

text \<open>What every state of the wizard satisfies: the cursor never passes the end of the
  ranking, and no stored count is negative.\<close>

definition cutInv :: "cutState \<Rightarrow> bool" where
  "cutInv cs \<longleftrightarrow> cursor cs \<le> int (length (rankIds cs)) \<and> (\<forall>t c. chosen cs t = Some c \<longrightarrow> 0 \<le> c)"

lemma cutCount_range:
  "cursor cs \<le> int (length (rankIds cs)) \<Longrightarrow> 0 \<le> cutCount cs v \<and> cutCount cs v \<le> remaining cs"
  by (simp add: cutCount_def remaining_def)

lemma cutInv_step: "cutInv cs \<Longrightarrow> cutInv (cutStep cs x) \<and> rankIds (cutStep cs x) = rankIds cs"
proof (cases x)
  case (NextCut v)
  assume inv: "cutInv cs"
  then have r: "0 \<le> cutCount cs v" "cutCount cs v \<le> remaining cs"
    using cutCount_range [of cs v] by (simp_all add: cutInv_def)
  show ?thesis using inv r unfolding NextCut
    by (auto simp: cutInv_def nextCut_def applyCut_def Let_def chosenOr0_def remaining_def)
next
  case PrevCut
  assume inv: "cutInv cs"
  then have "0 \<le> chosenOr0 cs t" for t
    by (auto simp: cutInv_def chosenOr0_def split: option.splits)
  from this [of "tierAt (pos cs - 1)"] inv show ?thesis unfolding PrevCut
    by (auto simp: cutInv_def prevCut_def)
qed

lemma cutInv_run:
  "cutInv cs \<Longrightarrow> cutInv (foldl cutStep cs xs) \<and> rankIds (foldl cutStep cs xs) = rankIds cs"
proof (induction xs arbitrary: cs)
  case Nil
  then show ?case by simp
next
  case (Cons x xs)
  from cutInv_step [OF Cons.prems, of x] Cons.IH [of "cutStep cs x"] show ?case by simp
qed

text \<open>
  C7. For every ranking the wizard accepts, every sequence of Next and Previous inputs and
  every final count typed before Apply: the count that \<open>applyCut\<close> stores lies between 0
  and the number of ids remaining; the tiers built are SS, S, A, B, C, D, F, Unplaced in
  that order; read in that order they are the ranking itself, so no id is duplicated or
  omitted; and their sizes add up to the length of the ranking.
\<close>

theorem tier_cutoffs_partition:
  assumes "startCutoffs ranking = Some cs0"
  shows "(let cs = foldl cutStep cs0 inputs; tiers = applyButton v cs
          in 0 \<le> cutCount cs v \<and> cutCount cs v \<le> remaining cs
             \<and> map fst tiers = CUTOFF_TIERS @ [''Unplaced'']
             \<and> concat (map snd tiers) = ranking
             \<and> mset (concat (map snd tiers)) = mset ranking
             \<and> tierSizes tiers = length ranking)"
proof -
  from assms have cs0: "cs0 = \<lparr>rankIds = ranking, pos = 0, chosen = Map.empty, cursor = 0\<rparr>"
    by (simp add: startCutoffs_def split: if_splits)
  then have "cutInv cs0" by (simp add: cutInv_def)
  from cutInv_run [OF this, of inputs] cs0
  have inv: "cutInv (foldl cutStep cs0 inputs)" and ids: "rankIds (foldl cutStep cs0 inputs) = ranking"
    by simp_all
  have ids': "rankIds (applyCut v (foldl cutStep cs0 inputs)) = ranking"
    using ids by (simp add: applyCut_def)
  from inv have "cursor (foldl cutStep cs0 inputs) \<le> int (length (rankIds (foldl cutStep cs0 inputs)))"
    by (simp add: cutInv_def)
  from cutCount_range [OF this, of v] applyCutoffsToTiers_concat [of "applyCut v (foldl cutStep cs0 inputs)"] ids'
  show ?thesis by (simp add: Let_def applyButton_def tierSizes_concat)
qed

theorem tier_cutoffs_partition_witness:
  "startCutoffs [''a'', ''b'', ''c''] = Some \<lparr>rankIds = [''a'', ''b'', ''c''], pos = 0, chosen = Map.empty, cursor = 0\<rparr>
   \<and> applyButton 7 (foldl cutStep \<lparr>rankIds = [''a'', ''b'', ''c''], pos = 0, chosen = Map.empty, cursor = 0\<rparr> [NextCut 1, NextCut 5, PrevCut])
       = [(''SS'', [''a'']), (''S'', [''b'', ''c'']), (''A'', []), (''B'', []), (''C'', []), (''D'', []), (''F'', []), (''Unplaced'', [])]
   \<and> tierSizes (applyButton 7 (foldl cutStep \<lparr>rankIds = [''a'', ''b'', ''c''], pos = 0, chosen = Map.empty, cursor = 0\<rparr> [NextCut 1, NextCut 5, PrevCut])) = 3"
proof -
  have h: "startCutoffs [''a'', ''b'', ''c''] = Some \<lparr>rankIds = [''a'', ''b'', ''c''], pos = 0, chosen = Map.empty, cursor = 0\<rparr>"
    by (simp add: startCutoffs_def)
  have e: "applyButton 7 (foldl cutStep \<lparr>rankIds = [''a'', ''b'', ''c''], pos = 0, chosen = Map.empty, cursor = 0\<rparr> [NextCut 1, NextCut 5, PrevCut])
       = [(''SS'', [''a'']), (''S'', [''b'', ''c'']), (''A'', []), (''B'', []), (''C'', []), (''D'', []), (''F'', []), (''Unplaced'', [])]"
    by (simp add: applyButton_def applyCutoffsToTiers_def applyCut_def nextCut_def prevCut_def
        cutCount_def remaining_def chosenOr0_def tierAt_def CUTOFF_TIERS_def Let_def)
  from tier_cutoffs_partition [OF h, of "[NextCut 1, NextCut 5, PrevCut]" 7] h e show ?thesis
    by (simp add: Let_def)
qed


section \<open>Properties of the shuffle and of the ELO budget\<close>

text \<open>
  C10. The shuffle does not depend on its seed: for every array and any two seeds the
  results are the same, and the generator it creates always starts from state 1.
\<close>

theorem seededShuffle_ignores_seed:
  "seededShuffle array s1 = seededShuffle array s2 \<and> seededRandom None = 1"
  by (simp add: seededShuffle_def seededRandom_def)

text \<open>
  C2. With four candidates the base budget is 12 pairs. Intensity \<open>fast\<close> sets the factor
  0.6 and K = 40, but the budget stays 12 (not 0.6 times 12): a negative extra is clamped
  to 0. \<open>balanced\<close> gives 12 with K = 32 and \<open>accurate\<close> gives 18 with K = 24.
\<close>

theorem initElo_fast_not_scaled:
  "estimateEloPairTarget 4 = 12 \<and> initElo_totalPairs ''fast'' 4 = 12 \<and> initElo_kFactor ''fast'' = 40
   \<and> initElo_totalPairs ''balanced'' 4 = 12 \<and> initElo_kFactor ''balanced'' = 32
   \<and> initElo_totalPairs ''accurate'' 4 = 18 \<and> initElo_kFactor ''accurate'' = 24"
  by code_simp


section \<open>Scenarios of the merge driver\<close>

text \<open>
  The scenario of C8 as the claim states it does not hold: after A>B, C>D and A>C the
  driver asks for B against C, and with B>C it finishes with A, B, C, D, never having
  asked for B against D.
\<close>

theorem merge_scenario_counterexample:
  "map_option pc (abcd [Left, Left, Left]) = Some (Waiting ''B'' ''C'')
   \<and> map_option pc (abcd [Left, Left, Left, Left]) = Some Finished
   \<and> map_option result (abcd [Left, Left, Left, Left]) = Some (Some [''A'', ''B'', ''C'', ''D''])
   \<and> map_option (\<lambda>s. map_of (cache s) (keyFor ''B'' ''D'')) (abcd [Left, Left, Left, Left]) = Some None"
  by code_simp

text \<open>
  C8, amended. On A, B, C, D the driver asks A-B, then C-D, then A-C, then B-C. With
  A>B, C>D, A>C and C>B it asks B-D and finishes with A, C, B, D when B is preferred or
  tied, and with A, C, D, B when D is preferred. With B>C instead it finishes with
  A, B, C, D.
\<close>

theorem merge_scenario:
  "map_option pc (abcd []) = Some (Waiting ''A'' ''B'')
   \<and> map_option pc (abcd [Left]) = Some (Waiting ''C'' ''D'')
   \<and> map_option pc (abcd [Left, Left]) = Some (Waiting ''A'' ''C'')
   \<and> map_option pc (abcd [Left, Left, Left]) = Some (Waiting ''B'' ''C'')
   \<and> map_option pc (abcd [Left, Left, Left, Right]) = Some (Waiting ''B'' ''D'')
   \<and> map_option result (abcd [Left, Left, Left, Right, Left]) = Some (Some [''A'', ''C'', ''B'', ''D''])
   \<and> map_option result (abcd [Left, Left, Left, Right, Tie]) = Some (Some [''A'', ''C'', ''B'', ''D''])
   \<and> map_option result (abcd [Left, Left, Left, Right, Right]) = Some (Some [''A'', ''C'', ''D'', ''B''])
   \<and> map_option result (abcd [Left, Left, Left, Left]) = Some (Some [''A'', ''B'', ''C'', ''D''])"
  by code_simp

text \<open>
  C3. Five candidates, no skip: the driver finishes after nine judgments on nine different
  pairs, while the bound \<open>n * h - (2^h - 1)\<close> for \<open>n = 5\<close> is 8.
\<close>

theorem comparison_bound_exceeded:
  "map_option pc (sortRun [''a'', ''b'', ''c'', ''d'', ''e''] [Left, Left, Left, Right, Left, Left, Left, Left, Left] 60) = Some Finished
   \<and> map_option (\<lambda>s. countUniqueCachePairs (cache s)) (sortRun [''a'', ''b'', ''c'', ''d'', ''e''] [Left, Left, Left, Right, Left, Left, Left, Left, Left] 60) = Some 9
   \<and> totalComparisonUpperBound 5 = 8"
  by code_simp


section \<open>Invariant of the merge driver\<close>

text \<open>
  For a run on the ids \<open>items\<close>: \<open>arr\<close> is a rearrangement of the items; \<open>L\<close> and \<open>R\<close>
  together are a rearrangement of the block of \<open>arr\<close> that starts at \<open>i\<close>; and \<open>out\<close>
  holds what the cursors have passed.
\<close>

definition frameOK :: "string list \<Rightarrow> frame \<Rightarrow> bool" where
  "frameOK items f \<longleftrightarrow>
     mset (st_arr f) = mset items
   \<and> st_li f \<le> length (st_L f) \<and> st_rj f \<le> length (st_R f)
   \<and> length (st_L f) + length (st_R f) \<le> length (st_arr f) - st_i f
   \<and> mset (st_L f) + mset (st_R f)
       = mset (take (length (st_L f) + length (st_R f)) (drop (st_i f) (st_arr f)))
   \<and> mset (st_out f) = mset (take (st_li f) (st_L f)) + mset (take (st_rj f) (st_R f))
   \<and> 1 \<le> st_width f"

text \<open>What holds in addition at each control point, and of every frame on the undo stack.\<close>

definition cursorOK :: "frame \<Rightarrow> bool" where
  "cursorOK f \<longleftrightarrow> st_i f \<le> length (st_arr f)"

fun pcOK :: "pc \<Rightarrow> frame \<Rightarrow> bool" where
  "pcOK AtOuter f = (st_L f = [] \<and> st_R f = [])"
| "pcOK AtInner f = cursorOK f"
| "pcOK (Waiting a b) f = (st_li f < length (st_L f) \<and> st_rj f < length (st_R f) \<and> cursorOK f)"
| "pcOK Finished f = False"
| "pcOK Threw f = False"

definition undoOK :: "string list \<Rightarrow> 'e snapshot list \<Rightarrow> bool" where
  "undoOK items u =
     list_all (\<lambda>sn. case snap_stack sn of None \<Rightarrow> True | Some f \<Rightarrow> frameOK items f \<and> cursorOK f) u"

definition sortInv :: "string list \<Rightarrow> string list \<Rightarrow> 'e sorter \<Rightarrow> bool" where
  "sortInv dat items s \<longleftrightarrow>
     data s = dat \<and> N s = length items \<and> undoOK items (undo s)
   \<and> (if pc s = Finished
       then stack s = None \<and> (case result s of None \<Rightarrow> False | Some r \<Rightarrow> mset r = mset items)
       else (case stack s of None \<Rightarrow> False | Some f \<Rightarrow> frameOK items f \<and> pcOK (pc s) f))"

definition validInput :: "string list \<Rightarrow> string list \<Rightarrow> bool" where
  "validInput dat items \<longleftrightarrow> distinct items \<and> set items \<subseteq> set dat \<and> [] \<notin> set items"

lemma frameOK_sizes:
  assumes "frameOK items f"
  shows "length (st_out f) = st_li f + st_rj f" "length (st_arr f) = length items" "set (st_arr f) = set items"
proof -
  from assms have "mset (st_out f) = mset (take (st_li f) (st_L f)) + mset (take (st_rj f) (st_R f))"
      and le: "st_li f \<le> length (st_L f)" "st_rj f \<le> length (st_R f)" and a: "mset (st_arr f) = mset items"
    by (simp_all add: frameOK_def)
  then have "size (mset (st_out f)) = size (mset (take (st_li f) (st_L f)) + mset (take (st_rj f) (st_R f)))"
    by simp
  with le show "length (st_out f) = st_li f + st_rj f" by (simp add: min_def)
  from a show "length (st_arr f) = length items" by (rule mset_eq_length)
  from a show "set (st_arr f) = set items" by (rule mset_eq_setD)
qed

lemma frameOK_block_distinct:
  assumes "frameOK items f" "distinct items"
  shows "distinct (st_L f @ st_R f)"
proof -
  from assms have "distinct (st_arr f)" by (metis frameOK_def mset_eq_imp_distinct_iff)
  then have "distinct (take (length (st_L f) + length (st_R f)) (drop (st_i f) (st_arr f)))"
    by simp
  moreover from assms(1) have "mset (st_L f @ st_R f)
       = mset (take (length (st_L f) + length (st_R f)) (drop (st_i f) (st_arr f)))"
    by (simp add: frameOK_def)
  ultimately show ?thesis by (metis mset_eq_imp_distinct_iff)
qed

lemma frameOK_block_subset:
  assumes "frameOK items f"
  shows "set (st_L f) \<subseteq> set items" "set (st_R f) \<subseteq> set items"
proof -
  from assms have "mset (st_L f @ st_R f)
       = mset (take (length (st_L f) + length (st_R f)) (drop (st_i f) (st_arr f)))"
    by (simp add: frameOK_def)
  then have "set (st_L f @ st_R f) = set (take (length (st_L f) + length (st_R f)) (drop (st_i f) (st_arr f)))"
    by (rule mset_eq_setD)
  also have "\<dots> \<subseteq> set (st_arr f)" by (meson set_drop_subset set_take_subset subset_trans)
  finally show "set (st_L f) \<subseteq> set items" "set (st_R f) \<subseteq> set items"
    using frameOK_sizes(3) [OF assms] by auto
qed

lemma objsOf_id: "set xs \<subseteq> set dat \<Longrightarrow> objsOf xs dat = xs"
  by (simp add: objsOf_def subset_iff)

lemma idsOf_id: "[] \<notin> set xs \<Longrightarrow> idsOf xs = xs"
  by (induction xs) (auto simp: idsOf_def)

lemma frameOK_prepare:
  assumes ok: "frameOK items f" and e: "st_L f = []" "st_R f = []" and v: "validInput dat items"
  shows "frameOK items (prepare dat f)"
proof -
  let ?d = "drop (st_i f) (st_arr f)" and ?w = "st_width f"
  have arr: "set (st_arr f) = set items" using frameOK_sizes(3) [OF ok] .
  then have o: "objsOf (st_arr f) dat = st_arr f" using v by (simp add: objsOf_id validInput_def)
  have n1: "[] \<notin> set (take ?w ?d)" using arr v
    by (metis in_set_dropD in_set_takeD validInput_def)
  have n2: "[] \<notin> set (take ?w (drop (st_i f + ?w) (st_arr f)))" using arr v
    by (metis in_set_dropD in_set_takeD validInput_def)
  have p: "prepare dat f = f\<lparr>st_L := take ?w ?d, st_R := take ?w (drop ?w ?d), st_out := [], st_li := 0, st_rj := 0\<rparr>"
    using e o idsOf_id [OF n1] idsOf_id [OF n2] by (simp add: prepare_def Let_def add.commute)
  have cat: "take ?w ?d @ take ?w (drop ?w ?d) = take (?w + ?w) ?d" by (simp add: take_add)
  have len: "length (take ?w ?d) + length (take ?w (drop ?w ?d)) = length (take (?w + ?w) ?d)"
    by (metis cat length_append)
  have "mset (take ?w ?d) + mset (take ?w (drop ?w ?d)) = mset (take (?w + ?w) ?d)"
    by (metis cat mset_append)
  moreover have "take (length (take (?w + ?w) ?d)) ?d = take (?w + ?w) ?d"
    by (cases "length ?d \<le> ?w + ?w") (simp_all add: min_def)
  ultimately have m: "mset (take ?w ?d) + mset (take ?w (drop ?w ?d))
      = mset (take (length (take ?w ?d) + length (take ?w (drop ?w ?d))) ?d)"
    using len by simp
  have l: "length (take ?w ?d) + length (take ?w (drop ?w ?d)) \<le> length (st_arr f) - st_i f"
    using len by simp
  from ok have a: "mset (st_arr f) = mset items" "1 \<le> st_width f" by (simp_all add: frameOK_def)
  show ?thesis unfolding p frameOK_def using a m l by simp
qed

lemma split3: "n \<le> length xs - k \<Longrightarrow> mset (take k xs) + mset (take n (drop k xs)) + mset (drop (k + n) xs) = mset xs"
proof -
  have "take k xs @ take n (drop k xs) @ drop n (drop k xs) = xs"
    by (metis append_take_drop_id)
  then have "mset (take k xs @ take n (drop k xs) @ drop n (drop k xs)) = mset xs" by simp
  then show ?thesis by (simp add: ac_simps)
qed

lemma frameOK_fastForward:
  assumes ok: "frameOK items f" and e: "st_R f = []"
  shows "frameOK items (fastForward f)"
proof -
  from ok e have l: "length (st_L f) \<le> length (st_arr f) - st_i f"
    and m: "mset (st_L f) = mset (take (length (st_L f)) (drop (st_i f) (st_arr f)))"
    and a: "mset (st_arr f) = mset items" and w: "1 \<le> st_width f"
    by (simp_all add: frameOK_def)
  have "mset (take (st_i f) (st_arr f) @ st_L f @ drop (st_i f + length (st_L f)) (st_arr f)) = mset (st_arr f)"
    using split3 [OF l] m by (simp add: add.assoc)
  with a w show ?thesis by (simp add: frameOK_def fastForward_def)
qed

lemma sliceFrom_nat: "sliceFrom (int a + int b) xs = drop (a + b) xs"
  by (simp add: sliceFrom_def nat_add_distrib)

lemma afterLoop_eq:
  assumes le: "st_li f \<le> length (st_L f)" "st_rj f \<le> length (st_R f)"
  shows "afterLoop f =
     f\<lparr>st_arr := take (st_i f) (st_arr f) @ ((st_out f @ drop (st_li f) (st_L f)) @ drop (st_rj f) (st_R f))
                   @ drop (st_i f + length ((st_out f @ drop (st_li f) (st_L f)) @ drop (st_rj f) (st_R f))) (st_arr f),
       st_L := [], st_R := [], st_out := [], st_li := 0, st_rj := 0, st_i := st_i f + 2 * st_width f\<rparr>"
proof -
  have mx: "max (st_li f) (length (st_L f)) = length (st_L f)"
    "max (st_rj f) (length (st_R f)) = length (st_R f)" using le by simp_all
  have z: "a + (b - b) + (c - c) = a" for a b c :: int by simp
  show ?thesis unfolding afterLoop_def Let_def mx z sliceFrom_nat ..
qed

lemma frameOK_afterLoop:
  assumes ok: "frameOK items f"
  shows "frameOK items (afterLoop f)"
proof -
  let ?n = "length (st_L f) + length (st_R f)"
  from ok have le: "st_li f \<le> length (st_L f)" "st_rj f \<le> length (st_R f)"
    and l: "?n \<le> length (st_arr f) - st_i f"
    and m: "mset (st_L f) + mset (st_R f) = mset (take ?n (drop (st_i f) (st_arr f)))"
    and o: "mset (st_out f) = mset (take (st_li f) (st_L f)) + mset (take (st_rj f) (st_R f))"
    and a: "mset (st_arr f) = mset items" and w: "1 \<le> st_width f"
    by (simp_all add: frameOK_def)
  let ?out = "(st_out f @ drop (st_li f) (st_L f)) @ drop (st_rj f) (st_R f)"
  have len: "length ?out = ?n" using frameOK_sizes(1) [OF ok] le by simp
  have "mset ?out = (mset (take (st_li f) (st_L f)) + mset (drop (st_li f) (st_L f)))
                  + (mset (take (st_rj f) (st_R f)) + mset (drop (st_rj f) (st_R f)))"
    using o by simp
  also have "\<dots> = mset (st_L f) + mset (st_R f)"
    by (metis append_take_drop_id mset_append)
  finally have mo: "mset ?out = mset (take ?n (drop (st_i f) (st_arr f)))" using m by simp
  have "mset (take (st_i f) (st_arr f)) + mset ?out + mset (drop (st_i f + ?n) (st_arr f)) = mset (st_arr f)"
    unfolding mo using split3 [OF l] .
  then have "mset (take (st_i f) (st_arr f) @ ?out @ drop (st_i f + length ?out) (st_arr f)) = mset items"
    unfolding len using a by (simp add: ac_simps)
  then show ?thesis unfolding afterLoop_eq [OF le] using w by (simp add: frameOK_def)
qed

lemma frameOK_takeLeft:
  assumes ok: "frameOK items f" and lt: "st_li f < length (st_L f)"
  shows "frameOK items (f\<lparr>st_out := st_out f @ [st_L f ! st_li f], st_li := st_li f + 1\<rparr>)"
  using ok lt by (simp add: frameOK_def take_Suc_conv_app_nth)

lemma frameOK_takeRight:
  assumes ok: "frameOK items f" and lt: "st_rj f < length (st_R f)"
  shows "frameOK items (f\<lparr>st_out := st_out f @ [st_R f ! st_rj f], st_rj := st_rj f + 1\<rparr>)"
  using ok lt by (simp add: frameOK_def take_Suc_conv_app_nth)

lemma spliceToEnd_props: "length (spliceToEnd k xs) = length xs \<and> mset (spliceToEnd k xs) = mset xs \<and> take k (spliceToEnd k xs) = take k xs"
proof (cases "k < length xs")
  case True
  have "mset (take k xs @ drop (Suc k) xs @ [xs ! k]) = mset (take k xs @ xs ! k # drop (Suc k) xs)"
    by simp
  also have "\<dots> = mset xs" using True by (simp add: id_take_nth_drop [symmetric])
  finally show ?thesis using True by (simp add: spliceToEnd_def)
next
  case False
  then show ?thesis by (simp add: spliceToEnd_def)
qed

lemma frameOK_skipPair:
  assumes ok: "frameOK items f" and lt: "st_li f < length (st_L f)"
  shows "frameOK items (skipPair f)"
proof (cases "int (length (st_L f)) - int (st_li f) = 1 \<and> int (length (st_R f)) - int (st_rj f) = 1")
  case True
  then show ?thesis using frameOK_takeLeft [OF ok lt] by (simp add: skipPair_def)
next
  case False
  have rl: "length (spliceToEnd (st_li f) (st_L f)) = length (st_L f)"
    "mset (spliceToEnd (st_li f) (st_L f)) = mset (st_L f)"
    "take (st_li f) (spliceToEnd (st_li f) (st_L f)) = take (st_li f) (st_L f)"
    using spliceToEnd_props [of "st_li f" "st_L f"] by simp_all
  have rr: "length (spliceToEnd (st_rj f) (st_R f)) = length (st_R f)"
    "mset (spliceToEnd (st_rj f) (st_R f)) = mset (st_R f)"
    "take (st_rj f) (spliceToEnd (st_rj f) (st_R f)) = take (st_rj f) (st_R f)"
    using spliceToEnd_props [of "st_rj f" "st_R f"] by simp_all
  have "skipPair f = f\<lparr>st_L := spliceToEnd (st_li f) (st_L f), st_R := spliceToEnd (st_rj f) (st_R f)\<rparr>"
    by (simp only: skipPair_def if_not_P [OF False])
  then show ?thesis using ok by (simp add: frameOK_def rl rr)
qed

text \<open>The invariant at the level of the sorter state, and its preservation by every step.\<close>

definition coreOK :: "string list \<Rightarrow> string list \<Rightarrow> 'e sorter \<Rightarrow> frame \<Rightarrow> bool" where
  "coreOK dat items s f \<longleftrightarrow>
     data s = dat \<and> N s = length items \<and> undoOK items (undo s) \<and> stack s = Some f \<and> frameOK items f"

lemma sortInv_running:
  "pc s \<noteq> Finished \<Longrightarrow> sortInv dat items s \<longleftrightarrow> (\<exists>f. coreOK dat items s f \<and> pcOK (pc s) f)"
  by (auto simp: sortInv_def coreOK_def split: option.splits)

lemma undoOK_butlast: "undoOK items u \<Longrightarrow> undoOK items (butlast u)"
  by (auto simp: undoOK_def list_all_iff dest: in_set_butlastD)

lemma undoOK_drop: "undoOK items u \<Longrightarrow> undoOK items (drop k u)"
  by (auto simp: undoOK_def list_all_iff dest: in_set_dropD)

lemma undoOK_last:
  "undoOK items u \<Longrightarrow> u \<noteq> [] \<Longrightarrow> snap_stack (last u) = Some f \<Longrightarrow> frameOK items f \<and> cursorOK f"
  by (force simp: undoOK_def list_all_iff dest: last_in_set)

lemma coreOK_push: "coreOK dat items s f \<Longrightarrow> cursorOK f \<Longrightarrow> coreOK dat items (pushUndoSnapshot s) f"
proof -
  assume c: "coreOK dat items s f" and "cursorOK f"
  then have "undoOK items (undo s @ [snapshotOf s])"
    by (simp add: coreOK_def undoOK_def snapshotOf_def)
  then have "undoOK items (undo (pushUndoSnapshot s))"
    by (simp add: pushUndoSnapshot_def Let_def undoOK_drop del: drop_append)
  then show ?thesis using c by (simp add: coreOK_def pushUndoSnapshot_def Let_def)
qed

lemma coreOK_finish: "coreOK dat items s f \<Longrightarrow> coreOK dat items (finish a b r s) f"
  by (cases r) (simp_all add: coreOK_def finish_def Let_def)

lemma coreOK_pc: "coreOK dat items (s\<lparr>pc := p\<rparr>) f = coreOK dat items s f"
  by (simp add: coreOK_def)

lemma coreOK_setFrame: "coreOK dat items s f \<Longrightarrow> frameOK items g \<Longrightarrow> coreOK dat items (setFrame g s) g"
  by (simp add: coreOK_def setFrame_def)

lemma pc_setFrame [simp]: "pc (setFrame g s) = pc s"
  by (simp add: setFrame_def)

lemma applyRes_ok:
  assumes c: "coreOK dat items s f" and lt: "st_li f < length (st_L f)" "st_rj f < length (st_R f)"
    and cu: "cursorOK f"
  shows "\<exists>g. coreOK dat items (applyRes r s) g \<and> cursorOK g \<and> pc (applyRes r s) = AtInner"
proof (cases r)
  case (Num v)
  from c have st: "stack s = Some f" and ok: "frameOK items f" by (simp_all add: coreOK_def)
  show ?thesis
  proof (cases "v \<ge> 0")
    case True
    then show ?thesis unfolding Num using st cu coreOK_setFrame [OF c frameOK_takeLeft [OF ok lt(1)]]
      by (auto simp: applyRes_def coreOK_pc cursorOK_def)
  next
    case False
    then show ?thesis unfolding Num using st cu coreOK_setFrame [OF c frameOK_takeRight [OF ok lt(2)]]
      by (auto simp: applyRes_def coreOK_pc cursorOK_def)
  qed
next
  case Null
  from c have st: "stack s = Some f" and ok: "frameOK items f" by (simp_all add: coreOK_def)
  have "cursorOK (skipPair f)" using cu by (simp add: cursorOK_def skipPair_def)
  then show ?thesis unfolding Null using st coreOK_setFrame [OF c frameOK_skipPair [OF ok lt(1)]]
    by (auto simp: applyRes_def coreOK_pc)
next
  case BACK
  from c have st: "stack s = Some f" and ok: "frameOK items f" and u: "undoOK items (undo s)"
    and d: "data s = dat" "N s = length items"
    by (simp_all add: coreOK_def)
  show ?thesis
  proof (cases "length (undo s) < 2")
    case True
    then have "applyRes BACK s = s\<lparr>pc := AtInner\<rparr>"
      using st by (simp add: applyRes_def restoreFromUndo_def)
    then show ?thesis using c cu unfolding BACK by (auto simp: coreOK_pc)
  next
    case False
    define prev where "prev = last (butlast (undo s))"
    define g where "g = (case snap_stack prev of None \<Rightarrow> f | Some f' \<Rightarrow> f')"
    have ne: "butlast (undo s) \<noteq> []" using False by (cases "undo s" rule: rev_cases) auto
    have gok: "frameOK items g \<and> cursorOK g"
      using undoOK_last [OF undoOK_butlast [OF u] ne] ok cu
      by (auto simp: g_def prev_def split: option.splits)
    have "undo (applyRes BACK s) = butlast (undo s) \<and> data (applyRes BACK s) = dat
        \<and> N (applyRes BACK s) = length items \<and> stack (applyRes BACK s) = Some g
        \<and> pc (applyRes BACK s) = AtInner"
      using False st d
      by (simp add: applyRes_def restoreFromUndo_def Let_def setFrame_def g_def prev_def)
    then show ?thesis using gok undoOK_butlast [OF u] unfolding BACK by (auto simp: coreOK_def)
  qed
qed

lemma ask_ok:
  assumes c: "coreOK dat items s f" and lt: "st_li f < length (st_L f)" "st_rj f < length (st_R f)"
    and cu: "cursorOK f"
  shows "pc (ask a b s) \<in> {AtInner, Waiting a b} \<and> (\<exists>g. coreOK dat items (ask a b s) g \<and> pcOK (pc (ask a b s)) g)"
proof (cases "map_of (cache (pushUndoSnapshot s)) (keyFor a b)")
  case None
  then have "ask a b s = (pushUndoSnapshot s)\<lparr>pc := Waiting a b\<rparr>" by (simp add: ask_def Let_def)
  then show ?thesis using coreOK_push [OF c cu] lt cu by (auto simp: coreOK_pc)
next
  case (Some v)
  then have e: "ask a b s = applyRes (Num v) (pushUndoSnapshot s)" by (simp add: ask_def Let_def)
  from applyRes_ok [OF coreOK_push [OF c cu] lt cu, of "Num v"] show ?thesis unfolding e by auto
qed

lemma nth_append_distinct:
  "distinct (xs @ ys) \<Longrightarrow> i < length xs \<Longrightarrow> j < length ys \<Longrightarrow> xs ! i \<noteq> ys ! j"
  by (metis IntI distinct_append empty_iff nth_mem)

lemma sortInv_innerStep:
  assumes v: "validInput dat items" and inv: "sortInv dat items s" and p: "pc s = AtInner"
  shows "sortInv dat items (innerStep s) \<and> pc (innerStep s) \<noteq> Finished \<and> pc (innerStep s) \<noteq> Threw"
proof -
  from inv p obtain f where c: "coreOK dat items s f" and cu: "cursorOK f"
    by (auto simp: sortInv_running)
  then have st: "stack s = Some f" and ok: "frameOK items f" and d: "data s = dat"
    by (simp_all add: coreOK_def)
  show ?thesis
  proof (cases "st_li f < length (st_L f) \<and> st_rj f < length (st_R f)")
    case True
    then have lt: "st_li f < length (st_L f)" "st_rj f < length (st_R f)" by simp_all
    let ?a = "st_L f ! st_li f" and ?b = "st_R f ! st_rj f"
    have "?a \<in> set items" "?b \<in> set items"
      using frameOK_block_subset [OF ok] lt by (auto dest: nth_mem)
    then have m: "?a \<in> set dat" "?b \<in> set dat" using v by (auto simp: validInput_def)
    have ne: "?a \<noteq> ?b"
      using nth_append_distinct [OF frameOK_block_distinct [OF ok] lt] v by (simp add: validInput_def)
    have e: "innerStep s = ask ?a ?b s"
      using st True m ne d by (simp add: innerStep_def Let_def)
    from ask_ok [OF c lt cu, of ?a ?b] show ?thesis unfolding e
      by (auto simp: sortInv_running)
  next
    case False
    then have e: "innerStep s = (setFrame (afterLoop f) s)\<lparr>pc := AtOuter\<rparr>"
      using st by (auto simp add: innerStep_def)
    have "coreOK dat items (innerStep s) (afterLoop f)"
      unfolding e coreOK_pc using coreOK_setFrame [OF c frameOK_afterLoop [OF ok]] .
    moreover have "st_L (afterLoop f) = [] \<and> st_R (afterLoop f) = []"
      by (simp add: afterLoop_def Let_def)
    ultimately show ?thesis unfolding sortInv_running [of "innerStep s", unfolded e, simplified] e
      by (auto simp: sortInv_running e)
  qed
qed

lemma sortInv_answer:
  assumes inv: "sortInv dat items s" and p: "pc s = Waiting a b"
  shows "sortInv dat items (answer c s) \<and> pc (answer c s) = AtInner"
proof -
  from inv p obtain f where c: "coreOK dat items s f" and lt: "st_li f < length (st_L f)" "st_rj f < length (st_R f)"
    and cu: "cursorOK f"
    by (auto simp: sortInv_running)
  have e: "answer c s = applyRes (valueOf c) (finish a b (valueOf c) s)" using p by (simp add: answer_def)
  from applyRes_ok [where r = "valueOf c" and s = "finish a b (valueOf c) s", OF coreOK_finish [OF c] lt cu]
  obtain g where "coreOK dat items (answer c s) g" "cursorOK g" "pc (answer c s) = AtInner"
    unfolding e by blast
  then show ?thesis by (auto simp: sortInv_running)
qed

lemma sortInv_outerStep:
  assumes v: "validInput dat items" and inv: "sortInv dat items s" and p: "pc s = AtOuter"
  shows "sortInv dat items (outerStep s)"
proof -
  from inv p obtain f where c: "coreOK dat items s f" and e: "st_L f = []" "st_R f = []"
    by (auto simp: sortInv_running)
  then have st: "stack s = Some f" and ok: "frameOK items f" and d: "data s = dat"
    by (simp_all add: coreOK_def)
  show ?thesis
  proof (cases "st_width f < N s")
    case False
    have "set (st_arr f) \<subseteq> set dat" using frameOK_sizes(3) [OF ok] v by (simp add: validInput_def)
    then have "objsOf (st_arr f) (data s) = st_arr f" using d by (simp add: objsOf_id)
    then have "outerStep s = s\<lparr>active := False, result := Some (st_arr f), stack := None, pc := Finished\<rparr>"
      using False st by (simp add: outerStep_def)
    then show ?thesis using c by (simp add: sortInv_def coreOK_def frameOK_def)
  next
    case True
    show ?thesis
    proof (cases "st_i f \<ge> length (st_arr f)")
      case ge: True
      let ?g = "f\<lparr>st_width := st_width f * 2, st_i := 0\<rparr>"
      have o: "outerStep s = setFrame ?g s" using True ge st by (simp add: outerStep_def)
      have "frameOK items ?g" using ok e by (simp add: frameOK_def)
      from coreOK_setFrame [OF c this] e p show ?thesis unfolding o
        by (auto simp: sortInv_running)
    next
      case lt: False
      let ?g = "prepare dat f"
      have g: "frameOK items ?g" using frameOK_prepare [OF ok e v] .
      have cu: "cursorOK ?g" using lt e by (simp add: cursorOK_def prepare_def Let_def)
      show ?thesis
      proof (cases "st_R ?g = []")
        case True
        then have o: "outerStep s = setFrame (fastForward ?g) s"
          using \<open>st_width f < N s\<close> lt st d by (simp add: outerStep_def Let_def)
        have "st_L (fastForward ?g) = [] \<and> st_R (fastForward ?g) = []" by (simp add: fastForward_def)
        with coreOK_setFrame [OF c frameOK_fastForward [OF g True]] p show ?thesis unfolding o
          by (auto simp: sortInv_running)
      next
        case False
        then have o: "outerStep s = (setFrame ?g s)\<lparr>pc := AtInner\<rparr>"
          using \<open>st_width f < N s\<close> lt st d by (simp add: outerStep_def Let_def)
        from coreOK_setFrame [OF c g] cu show ?thesis unfolding o
          by (auto simp: sortInv_running coreOK_pc)
      qed
    qed
  qed
qed

lemma sortInv_run:
  assumes v: "validInput dat items"
  shows "sortInv dat items s \<Longrightarrow> sortInv dat items (run n s cs)"
proof (induction n arbitrary: s cs)
  case 0
  then show ?case by simp
next
  case (Suc n)
  show ?case
  proof (cases "pc s")
    case AtOuter
    then show ?thesis using Suc.IH [OF sortInv_outerStep [OF v Suc.prems AtOuter]] by simp
  next
    case AtInner
    then show ?thesis using Suc.IH sortInv_innerStep [OF v Suc.prems AtInner] by simp
  next
    case (Waiting a b)
    show ?thesis
    proof (cases cs)
      case Nil
      then show ?thesis using Waiting Suc.prems by simp
    next
      case (Cons c cs')
      then show ?thesis using Waiting Suc.IH sortInv_answer [OF Suc.prems Waiting] by simp
    qed
  next
    case Finished
    then show ?thesis using Suc.prems by simp
  next
    case Threw
    then show ?thesis using Suc.prems by simp
  qed
qed

lemma sortInv_start:
  assumes v: "validInput (data s0) items" and i: "initSort items s0 = Some s1"
  shows "sortInv (data s0) items (continueSort s1)"
proof -
  let ?f = "\<lparr>st_width = 1, st_i = 0, st_arr = items, st_L = [], st_R = [], st_out = [], st_li = 0, st_rj = 0\<rparr>"
  have ids: "idsOf items = items" using v by (simp add: idsOf_id validInput_def)
  from i have ne: "items \<noteq> []" by (auto simp: initSort_def split: if_splits)
  have ok: "frameOK items ?f \<and> cursorOK ?f" by (simp add: frameOK_def cursorOK_def)
  from i ne ids have s1: "s1 = pushUndoSnapshot (s0\<lparr>active := True, result := None, stack := Some ?f,
        totalComparisons := Some (totalComparisonUpperBound (length items)), undo := []\<rparr>)"
    by (simp add: initSort_def Let_def)
  have "coreOK (data s0) items (s0\<lparr>active := True, result := None, stack := Some ?f,
        totalComparisons := Some (totalComparisonUpperBound (length items)), undo := []\<rparr>
        \<lparr>N := length items\<rparr>) ?f"
    using ok by (simp add: coreOK_def undoOK_def)
  from coreOK_push [OF this] ok
  have "coreOK (data s0) items (continueSort s1) ?f \<and> pc (continueSort s1) = AtOuter"
    unfolding s1 by (simp add: continueSort_def pushUndoSnapshot_def Let_def coreOK_def snapshotOf_def)
  then show ?thesis by (auto simp: sortInv_running)
qed


section \<open>Symmetry of the comparison cache\<close>

text \<open>
  Ids without the separator of \<^verbatim>\<open>keyFor\<close>, and a sequence of calls \<^verbatim>\<open>prefer(a, b)\<close>, each
  with the click that answers it. A pair whose key is cached is not prompted
  (\<^verbatim>\<open>if (state.sorter.cache[k] != null) return state.sorter.cache[k]\<close>), so its click is not
  read; the other calls go through \<^verbatim>\<open>finish\<close>.
\<close>

definition pipeFree :: "string \<Rightarrow> bool" where
  "pipeFree a \<longleftrightarrow> CHR ''|'' \<notin> set a"

fun recordAll :: "(string \<times> string \<times> choice) list \<Rightarrow> 'e sorter \<Rightarrow> 'e sorter" where
  "recordAll [] s = s"
| "recordAll ((a, b, c) # js) s =
     recordAll js (case map_of (cache s) (keyFor a b) of
                      Some v \<Rightarrow> s
                    | None \<Rightarrow> finish a b (valueOf c) s)"

definition judgmentOK :: "string \<times> string \<times> choice \<Rightarrow> bool" where
  "judgmentOK j = (case j of (a, b, c) \<Rightarrow> pipeFree a \<and> pipeFree b \<and> a \<noteq> b)"

definition cacheSym :: "(string \<times> int) list \<Rightarrow> (string \<times> bool) list \<Rightarrow> bool" where
  "cacheSym c t \<longleftrightarrow>
     (\<forall>k v. map_of c k = Some v \<longrightarrow> v \<in> {- 1, 0, 1})
   \<and> (\<forall>x y. pipeFree x \<and> pipeFree y \<longrightarrow>
          map_of c (keyFor y x) = map_option inverseVal (map_of c (keyFor x y))
        \<and> map_of t (keyFor y x) = map_of t (keyFor x y)
        \<and> (map_of c (keyFor x y) = Some 0 \<longrightarrow> map_of t (keyFor x y) = Some True))"

lemma keyFor_inj:
  assumes "pipeFree a" "pipeFree c" "keyFor a b = keyFor c d"
  shows "a = c \<and> b = d"
proof -
  have tw: "takeWhile (\<lambda>ch. ch \<noteq> CHR ''|'') (keyFor x y) = x" if "pipeFree x" for x y
  proof -
    have "\<And>z. z \<in> set x \<Longrightarrow> z \<noteq> CHR ''|''" using that by (auto simp: pipeFree_def)
    from takeWhile_append2 [of x "\<lambda>ch. ch \<noteq> CHR ''|''", OF this] show ?thesis
      by (simp add: keyFor_def)
  qed
  from tw [OF assms(1), of b] tw [OF assms(2), of d] assms(3) have "a = c" by simp
  with assms(3) show ?thesis by (simp add: keyFor_def)
qed

lemma inverseVal_range: "inverseVal v \<in> {- 1, 0, 1}"
  by (simp add: inverseVal_def)

lemma inverseVal_invol: "v \<in> {- 1, 0, 1} \<Longrightarrow> inverseVal (inverseVal v) = v"
  by (auto simp: inverseVal_def)

lemma inverseVal_zero: "inverseVal v = 0 \<longleftrightarrow> v \<noteq> 1 \<and> v \<noteq> - 1"
  by (simp add: inverseVal_def)

lemma cacheSym_finish_Num:
  assumes sym: "cacheSym (cache s) (ties s)" and ok: "pipeFree a" "pipeFree b" "a \<noteq> b"
    and v: "v \<in> {- 1, 0, 1}"
  shows "cacheSym (cache (finish a b (Num v) s)) (ties (finish a b (Num v) s))"
proof -
  let ?c = "map_of (cache (finish a b (Num v) s))" and ?t = "map_of (ties (finish a b (Num v) s))"
  let ?kab = "keyFor a b" and ?kba = "keyFor b a"
  have kne: "?kab \<noteq> ?kba" using keyFor_inj [OF ok(1) ok(2)] ok(3) by blast
  have c: "?c = (map_of (cache s))(?kab \<mapsto> v, ?kba \<mapsto> inverseVal v)"
    by (simp add: finish_def Let_def update_conv')
  have t: "?t = (if v = 0 then (map_of (ties s))(?kab \<mapsto> True, ?kba \<mapsto> True) else map_of (ties s))"
    by (simp add: finish_def Let_def update_conv')
  from sym have oldr: "\<And>k w. map_of (cache s) k = Some w \<Longrightarrow> w \<in> {- 1, 0, 1}"
    unfolding cacheSym_def by blast
  from sym ok have tsym: "map_of (ties s) ?kba = map_of (ties s) ?kab"
    unfolding cacheSym_def by blast
  have cab: "?c ?kab = Some v" unfolding c using kne by simp
  have cba: "?c ?kba = Some (inverseVal v)" unfolding c by simp
  have coth: "?c k = map_of (cache s) k" if "k \<noteq> ?kab" "k \<noteq> ?kba" for k
    unfolding c using that by simp
  have tab: "?t ?kab = (if v = 0 then Some True else map_of (ties s) ?kab)"
    unfolding t using kne by simp
  have tba: "?t ?kba = (if v = 0 then Some True else map_of (ties s) ?kab)"
    unfolding t using tsym by simp
  have toth: "?t k = map_of (ties s) k" if "k \<noteq> ?kab" "k \<noteq> ?kba" for k
    unfolding t using that by simp
  have rng: "w \<in> {- 1, 0, 1}" if "?c k = Some w" for k w
  proof (cases "k = ?kab \<or> k = ?kba")
    case True
    then show ?thesis using that cab cba v inverseVal_range [of v] by auto
  next
    case False
    then show ?thesis using that coth [of k] oldr by simp
  qed
  have pair: "?c (keyFor y x) = map_option inverseVal (?c (keyFor x y))
        \<and> ?t (keyFor y x) = ?t (keyFor x y)
        \<and> (?c (keyFor x y) = Some 0 \<longrightarrow> ?t (keyFor x y) = Some True)"
    if pf: "pipeFree x" "pipeFree y" for x y
  proof -
    from sym pf have old: "map_of (cache s) (keyFor y x) = map_option inverseVal (map_of (cache s) (keyFor x y))"
      "map_of (ties s) (keyFor y x) = map_of (ties s) (keyFor x y)"
      "map_of (cache s) (keyFor x y) = Some 0 \<longrightarrow> map_of (ties s) (keyFor x y) = Some True"
      unfolding cacheSym_def by blast+
    have e1: "keyFor x y = ?kab \<longleftrightarrow> x = a \<and> y = b" using keyFor_inj [OF pf(1) ok(1)] by blast
    have e2: "keyFor x y = ?kba \<longleftrightarrow> x = b \<and> y = a" using keyFor_inj [OF pf(1) ok(2)] by blast
    have e3: "keyFor y x = ?kab \<longleftrightarrow> y = a \<and> x = b" using keyFor_inj [OF pf(2) ok(1)] by blast
    have e4: "keyFor y x = ?kba \<longleftrightarrow> y = b \<and> x = a" using keyFor_inj [OF pf(2) ok(2)] by blast
    consider (ab) "x = a" "y = b" | (ba) "x = b" "y = a"
      | (other) "\<not> (x = a \<and> y = b)" "\<not> (x = b \<and> y = a)" by blast
    then show ?thesis
    proof cases
      case ab
      show ?thesis unfolding ab cab cba tab tba by simp
    next
      case ba
      show ?thesis unfolding ba cab cba tab tba
        using inverseVal_invol [OF v] v by (auto simp: inverseVal_zero)
    next
      case other
      have "?c (keyFor x y) = map_of (cache s) (keyFor x y)" using coth e1 e2 other by blast
      moreover have "?c (keyFor y x) = map_of (cache s) (keyFor y x)" using coth e3 e4 other by blast
      moreover have "?t (keyFor x y) = map_of (ties s) (keyFor x y)" using toth e1 e2 other by blast
      moreover have "?t (keyFor y x) = map_of (ties s) (keyFor y x)" using toth e3 e4 other by blast
      ultimately show ?thesis using old by simp
    qed
  qed
  show ?thesis unfolding cacheSym_def using rng pair by blast
qed

lemma cacheSym_step:
  assumes sym: "cacheSym (cache s) (ties s)" and ok: "pipeFree a" "pipeFree b" "a \<noteq> b"
  shows "cacheSym (cache (finish a b (valueOf c) s)) (ties (finish a b (valueOf c) s))"
proof (cases c)
  case Left
  show ?thesis unfolding Left valueOf.simps by (rule cacheSym_finish_Num [OF sym ok]) simp
next
  case Tie
  show ?thesis unfolding Tie valueOf.simps by (rule cacheSym_finish_Num [OF sym ok]) simp
next
  case Right
  show ?thesis unfolding Right valueOf.simps by (rule cacheSym_finish_Num [OF sym ok]) simp
next
  case Skip
  show ?thesis unfolding Skip using sym by (simp add: finish_def)
next
  case Back
  show ?thesis unfolding Back using sym by (simp add: finish_def)
qed

lemma cacheSym_recordAll:
  "cacheSym (cache s) (ties s) \<Longrightarrow> list_all judgmentOK js \<Longrightarrow>
     cacheSym (cache (recordAll js s)) (ties (recordAll js s))"
proof (induction js arbitrary: s)
  case Nil
  then show ?case by simp
next
  case (Cons j js)
  obtain a b c where j: "j = (a, b, c)" by (cases j)
  from Cons.prems(2) have jo: "judgmentOK j" and rest: "list_all judgmentOK js" by simp_all
  from jo have ok: "pipeFree a" "pipeFree b" "a \<noteq> b" by (simp_all add: j judgmentOK_def)
  show ?case
  proof (cases "map_of (cache s) (keyFor a b)")
    case None
    then have e: "recordAll (j # js) s = recordAll js (finish a b (valueOf c) s)" by (simp add: j)
    show ?thesis unfolding e by (rule Cons.IH [OF cacheSym_step [OF Cons.prems(1) ok] rest])
  next
    case (Some v)
    then have e: "recordAll (j # js) s = recordAll js s" by (simp add: j)
    show ?thesis unfolding e by (rule Cons.IH [OF Cons.prems(1) rest])
  qed
qed

text \<open>A cached entry stays: a pair that is cached under either order is not asked again.\<close>

lemma finish_other_key:
  assumes "k \<noteq> keyFor a b" "k \<noteq> keyFor b a"
  shows "map_of (cache (finish a b r s)) k = map_of (cache s) k"
  using assms by (cases r) (simp_all add: finish_def Let_def update_conv')

lemma finish_records:
  assumes "pipeFree a" "pipeFree b" "a \<noteq> b"
  shows "map_of (cache (finish a b (Num v) s)) (keyFor a b) = Some v"
proof -
  have "keyFor a b \<noteq> keyFor b a" using keyFor_inj [OF assms(1,2)] assms(3) by blast
  then show ?thesis by (simp add: finish_def Let_def update_conv')
qed

lemma recordAll_keeps:
  "cacheSym (cache s) (ties s) \<Longrightarrow> list_all judgmentOK js \<Longrightarrow> pipeFree x \<Longrightarrow> pipeFree y \<Longrightarrow>
     map_of (cache s) (keyFor x y) = Some v \<Longrightarrow>
     map_of (cache (recordAll js s)) (keyFor x y) = Some v"
proof (induction js arbitrary: s)
  case Nil
  then show ?case by simp
next
  case (Cons j js)
  obtain a b c where j: "j = (a, b, c)" by (cases j)
  from Cons.prems(2) have jo: "judgmentOK j" and rest: "list_all judgmentOK js" by simp_all
  from jo have ok: "pipeFree a" "pipeFree b" "a \<noteq> b" by (simp_all add: j judgmentOK_def)
  show ?case
  proof (cases "map_of (cache s) (keyFor a b)")
    case None
    then have e: "recordAll (j # js) s = recordAll js (finish a b (valueOf c) s)" by (simp add: j)
    have n1: "keyFor x y \<noteq> keyFor a b" using None Cons.prems(5) by auto
    have n2: "keyFor x y \<noteq> keyFor b a"
    proof
      assume k: "keyFor x y = keyFor b a"
      from Cons.prems(1) ok have "map_of (cache s) (keyFor a b) = map_option inverseVal (map_of (cache s) (keyFor b a))"
        unfolding cacheSym_def by blast
      then show False using None Cons.prems(5) k by simp
    qed
    have "map_of (cache (finish a b (valueOf c) s)) (keyFor x y) = Some v"
      using Cons.prems(5) by (simp add: finish_other_key [OF n1 n2])
    from Cons.IH [OF cacheSym_step [OF Cons.prems(1) ok] rest Cons.prems(3,4) this]
    show ?thesis unfolding e .
  next
    case (Some w)
    then have e: "recordAll (j # js) s = recordAll js s" by (simp add: j)
    show ?thesis unfolding e by (rule Cons.IH [OF Cons.prems(1) rest Cons.prems(3,4,5)])
  qed
qed

lemma recordAll_judged:
  "cacheSym (cache s) (ties s) \<Longrightarrow> list_all judgmentOK js \<Longrightarrow> (a, b, c) \<in> set js \<Longrightarrow>
     c \<in> {Left, Tie, Right} \<Longrightarrow> \<exists>v. map_of (cache (recordAll js s)) (keyFor a b) = Some v"
proof (induction js arbitrary: s)
  case Nil
  then show ?case by simp
next
  case (Cons j js)
  obtain a' b' c' where j: "j = (a', b', c')" by (cases j)
  from Cons.prems(2) have jo: "judgmentOK j" and rest: "list_all judgmentOK js" by simp_all
  from jo have ok: "pipeFree a'" "pipeFree b'" "a' \<noteq> b'" by (simp_all add: j judgmentOK_def)
  define s' where "s' = (case map_of (cache s) (keyFor a' b') of Some v \<Rightarrow> s
                           | None \<Rightarrow> finish a' b' (valueOf c') s)"
  have e: "recordAll (j # js) s = recordAll js s'" by (simp add: j s'_def)
  have sym': "cacheSym (cache s') (ties s')"
    unfolding s'_def using Cons.prems(1) cacheSym_step [OF Cons.prems(1) ok]
    by (simp split: option.split)
  show ?case
  proof (cases "j = (a, b, c)")
    case True
    then have eq: "a' = a" "b' = b" "c' = c" using j by simp_all
    from Cons.prems(4) obtain x where x: "valueOf c = Num x" by (cases c) simp_all
    have "\<exists>v. map_of (cache s') (keyFor a b) = Some v"
    proof (cases "map_of (cache s) (keyFor a b)")
      case None
      then have "s' = finish a b (Num x) s" by (simp add: s'_def eq x)
      then show ?thesis by (simp add: finish_records [OF ok [unfolded eq]])
    next
      case (Some w)
      then show ?thesis by (simp add: s'_def eq)
    qed
    then obtain v where "map_of (cache s') (keyFor a b) = Some v" ..
    from recordAll_keeps [OF sym' rest ok(1,2) [unfolded eq] this] show ?thesis unfolding e ..
  next
    case False
    then have "(a, b, c) \<in> set js" using Cons.prems(3) by simp
    from Cons.IH [OF sym' rest this Cons.prems(4)] show ?thesis unfolding e .
  qed
qed

text \<open>
  C6, amended. Starting from an empty cache and tie set, after any sequence of calls of
  \<open>prefer\<close> on pairs of different ids that contain no \<open>|\<close>: every pair \<open>(a, b)\<close> that was
  given a judgment (Left, Tie or Right) has an entry \<open>v\<close> among 1, 0 and -1 under \<open>a|b\<close> and
  its inverse under \<open>b|a\<close>, and when \<open>v\<close> is 0 both keys are in the tie set. For all such
  ids \<open>x\<close> and \<open>y\<close>, judged or not, the entries under \<open>x|y\<close> and \<open>y|x\<close> are inverses of each
  other, the tie set agrees on both keys, and a cached 0 is in the tie set under both keys.
\<close>

theorem cache_symmetry:
  assumes "cache s = []" and "ties s = []" and "list_all judgmentOK js"
    and "(a, b, c) \<in> set js" and "c \<in> {Left, Tie, Right}"
    and "pipeFree x" and "pipeFree y"
  shows "(\<exists>v \<in> {1, 0, - 1}.
            map_of (cache (recordAll js s)) (keyFor a b) = Some v
          \<and> map_of (cache (recordAll js s)) (keyFor b a) = Some (inverseVal v)
          \<and> (v = 0 \<longrightarrow> map_of (ties (recordAll js s)) (keyFor a b) = Some True
                      \<and> map_of (ties (recordAll js s)) (keyFor b a) = Some True))
       \<and> map_of (cache (recordAll js s)) (keyFor y x)
           = map_option inverseVal (map_of (cache (recordAll js s)) (keyFor x y))
       \<and> map_of (ties (recordAll js s)) (keyFor y x) = map_of (ties (recordAll js s)) (keyFor x y)
       \<and> (map_of (cache (recordAll js s)) (keyFor x y) = Some 0
            \<longrightarrow> map_of (ties (recordAll js s)) (keyFor x y) = Some True
              \<and> map_of (ties (recordAll js s)) (keyFor y x) = Some True)"
proof -
  let ?c = "map_of (cache (recordAll js s))" and ?t = "map_of (ties (recordAll js s))"
  have sym0: "cacheSym (cache s) (ties s)" using assms(1,2) by (simp add: cacheSym_def)
  have sym: "cacheSym (cache (recordAll js s)) (ties (recordAll js s))"
    using cacheSym_recordAll [OF sym0 assms(3)] .
  then have rng: "\<And>k v. ?c k = Some v \<Longrightarrow> v \<in> {- 1, 0, 1}"
    and pair: "\<And>x y. pipeFree x \<Longrightarrow> pipeFree y \<Longrightarrow>
          ?c (keyFor y x) = map_option inverseVal (?c (keyFor x y))
        \<and> ?t (keyFor y x) = ?t (keyFor x y)
        \<and> (?c (keyFor x y) = Some 0 \<longrightarrow> ?t (keyFor x y) = Some True)"
    unfolding cacheSym_def by blast+
  from assms(3,4) have "judgmentOK (a, b, c)" by (auto simp: list_all_iff)
  then have ok: "pipeFree a" "pipeFree b" by (simp_all add: judgmentOK_def)
  from recordAll_judged [OF sym0 assms(3,4,5)] obtain v where v: "?c (keyFor a b) = Some v" ..
  have "v \<in> {1, 0, - 1}" using rng [OF v] by auto
  moreover have "?c (keyFor b a) = Some (inverseVal v)" using pair [OF ok] v by simp
  moreover have "v = 0 \<longrightarrow> ?t (keyFor a b) = Some True \<and> ?t (keyFor b a) = Some True"
    using pair [OF ok] v by simp
  ultimately have first: "\<exists>v \<in> {1, 0, - 1}. ?c (keyFor a b) = Some v \<and> ?c (keyFor b a) = Some (inverseVal v)
          \<and> (v = 0 \<longrightarrow> ?t (keyFor a b) = Some True \<and> ?t (keyFor b a) = Some True)"
    using v by blast
  from pair [OF assms(6,7)] first show ?thesis by simp
qed

theorem cache_symmetry_witness:
  "cache (defaultState [] :: unit sorter) = [] \<and> ties (defaultState [] :: unit sorter) = []
   \<and> list_all judgmentOK [(''a'', ''b'', Left), (''b'', ''c'', Tie), (''c'', ''a'', Skip), (''b'', ''a'', Left)]
   \<and> (''a'', ''b'', Left) \<in> set [(''a'', ''b'', Left), (''b'', ''c'', Tie), (''c'', ''a'', Skip), (''b'', ''a'', Left)]
   \<and> Left \<in> {Left, Tie, Right} \<and> pipeFree ''b'' \<and> pipeFree ''c''
   \<and> map_of (cache (recordAll [(''a'', ''b'', Left), (''b'', ''c'', Tie), (''c'', ''a'', Skip), (''b'', ''a'', Left)] (defaultState [] :: unit sorter))) (keyFor ''a'' ''b'') = Some 1
   \<and> map_of (cache (recordAll [(''a'', ''b'', Left), (''b'', ''c'', Tie), (''c'', ''a'', Skip), (''b'', ''a'', Left)] (defaultState [] :: unit sorter))) (keyFor ''b'' ''a'') = Some (- 1)
   \<and> map_of (cache (recordAll [(''a'', ''b'', Left), (''b'', ''c'', Tie), (''c'', ''a'', Skip), (''b'', ''a'', Left)] (defaultState [] :: unit sorter))) (keyFor ''b'' ''c'') = Some 0
   \<and> map_of (cache (recordAll [(''a'', ''b'', Left), (''b'', ''c'', Tie), (''c'', ''a'', Skip), (''b'', ''a'', Left)] (defaultState [] :: unit sorter))) (keyFor ''c'' ''b'') = Some 0
   \<and> map_of (ties (recordAll [(''a'', ''b'', Left), (''b'', ''c'', Tie), (''c'', ''a'', Skip), (''b'', ''a'', Left)] (defaultState [] :: unit sorter))) (keyFor ''b'' ''c'') = Some True
   \<and> map_of (ties (recordAll [(''a'', ''b'', Left), (''b'', ''c'', Tie), (''c'', ''a'', Skip), (''b'', ''a'', Left)] (defaultState [] :: unit sorter))) (keyFor ''c'' ''b'') = Some True"
proof -
  let ?js = "[(''a'', ''b'', Left), (''b'', ''c'', Tie), (''c'', ''a'', Skip), (''b'', ''a'', Left)]"
  let ?s = "defaultState [] :: unit sorter"
  have h1: "cache ?s = []" by (simp add: defaultState_def)
  have h2: "ties ?s = []" by (simp add: defaultState_def)
  have h3: "list_all judgmentOK ?js" by (simp add: judgmentOK_def pipeFree_def)
  have h4: "(''a'', ''b'', Left) \<in> set ?js" by simp
  have h5: "Left \<in> {Left, Tie, Right}" by simp
  have h6: "pipeFree ''b''" and h7: "pipeFree ''c''" by (simp_all add: pipeFree_def)
  have e1: "map_of (cache (recordAll ?js ?s)) (keyFor ''a'' ''b'') = Some 1" by code_simp
  have e2: "map_of (cache (recordAll ?js ?s)) (keyFor ''b'' ''c'') = Some 0" by code_simp
  from cache_symmetry [OF h1 h2 h3 h4 h5 h6 h7] e1 e2 h1 h2 h3 h4 h5 h6 h7
  show ?thesis by (simp add: inverseVal_def)
qed

text \<open>
  C6 as the claim states it does not hold for ids that contain the separator. The driver on
  the candidates \<open>a|b\<close>, \<open>c\<close>, \<open>b|c\<close>, \<open>a\<close> asks for \<open>a|b\<close> against \<open>c\<close>, and Left stores 1
  under \<open>a|b|c\<close> and -1 under \<open>c|a|b\<close>. It then asks for \<open>b|c\<close> against \<open>a\<close>, whose keys are
  \<open>b|c|a\<close> and \<open>a|b|c\<close>: Left stores -1 under \<open>a|b|c\<close>, and the judged pair \<open>a|b\<close>, \<open>c\<close>
  has -1 under both orders.
\<close>

theorem cache_symmetry_counterexample:
  "map_option (\<lambda>s. (pc s, map_of (cache s) (keyFor ''a|b'' ''c''), map_of (cache s) (keyFor ''c'' ''a|b'')))
      (sortRun [''a|b'', ''c'', ''b|c'', ''a''] [Left] 40)
     = Some (Waiting ''b|c'' ''a'', Some 1, Some (- 1))
   \<and> map_option (\<lambda>s. (map_of (cache s) (keyFor ''a|b'' ''c''), map_of (cache s) (keyFor ''c'' ''a|b'')))
      (sortRun [''a|b'', ''c'', ''b|c'', ''a''] [Left, Left] 40)
     = Some (Some (- 1), Some (- 1))"
  by code_simp


section \<open>Partition invariant of the elimination picker\<close>

text \<open>The ids held by the five collections, with multiplicity; the same for a snapshot.
  The history is in order when its index points into it, at most at entry 49, and every
  snapshot holds the ids of the run.\<close>

definition content :: "picker \<Rightarrow> string multiset" where
  "content p = mset (current p) + mset (survived p) + mset (evaluating p)
                 + mset (map fst (eliminated p)) + mset (favorites p)"

definition snapContent :: "pickerSnapshot \<Rightarrow> string multiset" where
  "snapContent sn = mset (hs_current sn) + mset (hs_survived sn) + mset (hs_evaluating sn)
                 + mset (map fst (hs_eliminated sn)) + mset (hs_favorites sn)"

definition histOK :: "string list \<Rightarrow> picker \<Rightarrow> bool" where
  "histOK ids p \<longleftrightarrow>
     - 1 \<le> historyIndex p \<and> historyIndex p < int (length (history p)) \<and> historyIndex p \<le> 49
   \<and> list_all (\<lambda>sn. snapContent sn = mset ids) (history p)"

definition pickerInv :: "string list \<Rightarrow> picker \<Rightarrow> bool" where
  "pickerInv ids p \<longleftrightarrow> content p = mset ids \<and> histOK ids p"

definition pickOK :: "picker \<Rightarrow> pickerOp \<Rightarrow> bool" where
  "pickOK p x = (case x of Pick ids \<Rightarrow> distinct ids \<and> set ids \<subseteq> set (evaluating p) | _ \<Rightarrow> True)"

fun picksValid :: "picker \<Rightarrow> pickerOp list \<Rightarrow> bool" where
  "picksValid p [] = True"
| "picksValid p (x # xs) =
     (pickOK p x \<and> (case pickerStep p x of None \<Rightarrow> True | Some p' \<Rightarrow> picksValid p' xs))"

lemma shuffleFrom_mset: "mset (fst (shuffleFrom k arr t)) = mset arr"
proof (induction k arbitrary: arr t)
  case 0
  then show ?case by simp
next
  case (Suc k)
  let ?j = "(case t of [] \<Rightarrow> 0 | x # _ \<Rightarrow> x) mod (Suc k + 1)"
  let ?arr = "(if Suc k < length arr then arr[Suc k := arr ! ?j, ?j := arr ! Suc k] else arr)"
  have "mset ?arr = mset arr"
  proof (cases "Suc k < length arr")
    case True
    have "?j < Suc (Suc k)" by simp
    then have "?j < length arr" using True by linarith
    from mset_swap [OF this True] True show ?thesis by simp
  next
    case False
    then show ?thesis by simp
  qed
  moreover have "shuffleFrom (Suc k) arr t = shuffleFrom k ?arr (tl t)" by (simp add: Let_def)
  ultimately show ?case using Suc.IH [of ?arr "tl t"] by simp
qed

lemma shuffle_mset: "shuffle arr t = (sh, t') \<Longrightarrow> mset sh = mset arr"
  using shuffleFrom_mset [of "length arr - 1" arr t] by (simp add: shuffle_def)

lemma unlockLoop_mset:
  "unlockLoop fav es = (kept, restored) \<Longrightarrow> mset (map fst kept) + mset restored = mset (map fst es)"
proof (induction es arbitrary: kept restored)
  case Nil
  then show ?case by simp
next
  case (Cons e es)
  obtain k r where rec: "unlockLoop fav es = (k, r)" by (cases "unlockLoop fav es")
  from Cons.IH [OF rec] have ih: "mset (map fst k) + mset r = mset (map fst es)" .
  from Cons.prems rec show ?case using ih
    by (auto simp: Let_def split: if_splits)
qed

lemma content_removeFromEliminated:
  "content (removeFromEliminated i p) = content p"
proof -
  obtain kept restored where u: "unlockLoop i (eliminated p) = (kept, restored)"
    by (cases "unlockLoop i (eliminated p)")
  from unlockLoop_mset [OF u] have "mset restored + mset (map fst kept) = mset (map fst (eliminated p))"
    by (simp add: add.commute)
  then show ?thesis
    by (auto simp: removeFromEliminated_def Let_def u content_def ac_simps)
qed

lemma keep_removeFromEliminated:
  "current (removeFromEliminated i p) = current p \<and> evaluating (removeFromEliminated i p) = evaluating p
   \<and> favorites (removeFromEliminated i p) = favorites p \<and> history (removeFromEliminated i p) = history p
   \<and> historyIndex (removeFromEliminated i p) = historyIndex p \<and> tape (removeFromEliminated i p) = tape p"
  by (simp add: removeFromEliminated_def Let_def split: prod.splits)

lemma content_addToFavorites:
  "i \<notin> set (favorites p) \<Longrightarrow> content (addToFavorites i p) = add_mset i (content p)"
  by (simp add: addToFavorites_def content_removeFromEliminated) (simp add: content_def)

lemma keep_addToFavorites:
  "current (addToFavorites i p) = current p \<and> evaluating (addToFavorites i p) = evaluating p
   \<and> history (addToFavorites i p) = history p \<and> historyIndex (addToFavorites i p) = historyIndex p"
  by (simp add: addToFavorites_def keep_removeFromEliminated)

lemma distinct_content:
  assumes "content p = mset ids" "distinct ids"
  shows "distinct (current p @ survived p @ evaluating p @ map fst (eliminated p) @ favorites p)"
proof -
  have "mset (current p @ survived p @ evaluating p @ map fst (eliminated p) @ favorites p) = mset ids"
    using assms(1) by (simp add: content_def ac_simps)
  then show ?thesis using assms(2) by (metis mset_eq_imp_distinct_iff)
qed

lemma content_nextRoundCore:
  assumes c: "content p = mset ids" and d: "distinct ids"
  shows "content (nextRoundCore p) = mset ids"
proof -
  define p1 where "p1 = (case survived p of
                  [newFavorite] \<Rightarrow>
                    if current p = [] then addToFavorites newFavorite (p\<lparr>survived := []\<rparr>) else p
                | _ \<Rightarrow> p)"
  have c1: "content p1 = mset ids"
  proof (cases "\<exists>x. survived p = [x] \<and> current p = []")
    case True
    then obtain x where x: "survived p = [x]" "current p = []" by blast
    have "distinct (current p @ survived p @ evaluating p @ map fst (eliminated p) @ favorites p)"
      using distinct_content [OF c d] .
    then have "x \<notin> set (favorites p)" using x by auto
    then have "content (addToFavorites x (p\<lparr>survived := []\<rparr>)) = add_mset x (content (p\<lparr>survived := []\<rparr>))"
      using content_addToFavorites [of x "p\<lparr>survived := []\<rparr>"] by simp
    also have "\<dots> = content p" using x by (simp add: content_def)
    finally show ?thesis using c x by (simp add: p1_def)
  next
    case False
    then have "p1 = p" by (auto simp: p1_def split: list.splits)
    then show ?thesis using c by simp
  qed
  obtain sh t' where s: "shuffle (survived p1) (tape p1) = (sh, t')" by (cases "shuffle (survived p1) (tape p1)")
  have "nextRoundCore p = p1\<lparr>current := current p1 @ sh, survived := [],
          batchSize := calculateBatchSize (length (current p1 @ sh)), tape := t'\<rparr>"
    unfolding nextRoundCore_def p1_def [symmetric] Let_def s by simp
  then show ?thesis using c1 shuffle_mset [OF s] by (simp add: content_def)
qed

lemma keep_nextRoundCore:
  "evaluating (nextRoundCore p) = evaluating p \<and> history (nextRoundCore p) = history p
   \<and> historyIndex (nextRoundCore p) = historyIndex p"
  by (auto simp: nextRoundCore_def Let_def keep_addToFavorites split: prod.splits list.splits)

lemma restoreIfStuck_props:
  "content (restoreIfStuck p) = content p \<and> evaluating (restoreIfStuck p) = evaluating p
   \<and> history (restoreIfStuck p) = history p \<and> historyIndex (restoreIfStuck p) = historyIndex p"
  by (simp add: restoreIfStuck_def content_def)

lemma nextBatch_props:
  assumes d: "distinct ids"
  shows "content p = mset ids \<Longrightarrow> evaluating p = [] \<Longrightarrow>
     content (nextBatch p) = mset ids \<and> history (nextBatch p) = history p
     \<and> historyIndex (nextBatch p) = historyIndex p"
proof (induction p rule: nextBatch.induct)
  case (1 p)
  let ?p1 = "restoreIfStuck p"
  have p1: "content ?p1 = mset ids" "evaluating ?p1 = []" "history ?p1 = history p"
    "historyIndex ?p1 = historyIndex p"
    using 1(2,3) restoreIfStuck_props [of p] by simp_all
  show ?case
  proof (cases "length (current ?p1) < batchSize ?p1 \<and> survived ?p1 \<noteq> []")
    case True
    have e: "nextBatch p = nextBatch (nextRoundCore ?p1)"
      by (subst nextBatch.simps) (simp only: Let_def if_P [OF True])
    have "content (nextRoundCore ?p1) = mset ids" using content_nextRoundCore [OF p1(1) d] .
    moreover have "evaluating (nextRoundCore ?p1) = []" using keep_nextRoundCore [of ?p1] p1(2) by simp
    ultimately show ?thesis using "1.IH" [OF refl True] keep_nextRoundCore [of ?p1] p1 unfolding e by simp
  next
    case False
    have e: "nextBatch p = ?p1\<lparr>evaluating := take (batchSize ?p1) (current ?p1),
                 current := drop (batchSize ?p1) (current ?p1)\<rparr>"
      by (subst nextBatch.simps) (simp only: Let_def if_not_P [OF False])
    have "mset (take (batchSize ?p1) (current ?p1)) + mset (drop (batchSize ?p1) (current ?p1)) = mset (current ?p1)"
      by (metis append_take_drop_id mset_append)
    then show ?thesis unfolding e using p1 by (simp add: content_def ac_simps)
  qed
qed

lemma pushHistory_props:
  assumes inv: "pickerInv ids p"
  shows "length (history (pushHistory p)) \<le> 50
     \<and> historyIndex (pushHistory p) = int (length (history (pushHistory p))) - 1
     \<and> list_all (\<lambda>sn. snapContent sn = mset ids) (history (pushHistory p))"
proof -
  from inv have c: "content p = mset ids" and i: "- 1 \<le> historyIndex p"
    "historyIndex p < int (length (history p))" "historyIndex p \<le> 49"
    and la: "list_all (\<lambda>sn. snapContent sn = mset ids) (history p)"
    by (simp_all add: pickerInv_def histOK_def)
  define h1 where "h1 = (if historyIndex p < int (length (history p)) - 1
                then sliceTo (historyIndex p + 1) (history p) else history p)"
  define h2 where "h2 = h1 @ [getStateSnapshot p]"
  have h1t: "h1 = take (nat (historyIndex p + 1)) (history p)"
    using i by (auto simp: h1_def sliceTo_def)
  have l1: "int (length h1) = historyIndex p + 1" using i unfolding h1t by simp
  have la1: "list_all (\<lambda>sn. snapContent sn = mset ids) h1"
    using la unfolding h1t by (auto simp: list_all_iff dest: in_set_takeD)
  have sn: "snapContent (getStateSnapshot p) = mset ids"
    using c by (simp add: snapContent_def getStateSnapshot_def content_def)
  have la2: "list_all (\<lambda>sn. snapContent sn = mset ids) h2" using la1 sn by (simp add: h2_def)
  have l2: "int (length h2) = historyIndex p + 2" using l1 by (simp add: h2_def)
  have ne: "h2 \<noteq> []" by (simp add: h2_def)
  have e: "pushHistory p = (if length h2 > 50 then p\<lparr>history := tl h2, historyIndex := int (length h2) - 1 - 1\<rparr>
         else p\<lparr>history := h2, historyIndex := int (length h2) - 1\<rparr>)"
    unfolding pushHistory_def Let_def h1_def [symmetric] h2_def [symmetric] ..
  show ?thesis
  proof (cases "length h2 > 50")
    case True
    have "list_all (\<lambda>sn. snapContent sn = mset ids) (tl h2)"
      using la2 ne by (cases h2) simp_all
    moreover have "length (tl h2) \<le> 50" using l2 i(3) by simp
    moreover have "int (length h2) - 1 - 1 = int (length (tl h2)) - 1" using ne by (cases h2) simp_all
    ultimately show ?thesis unfolding e using True by simp
  next
    case False
    then show ?thesis unfolding e using la2 by simp
  qed
qed

lemma pushHistory_keeps:
  "evaluating (pushHistory p) = evaluating p" "current (pushHistory p) = current p"
  "survived (pushHistory p) = survived p" "eliminated (pushHistory p) = eliminated p"
  "favorites (pushHistory p) = favorites p" "content (pushHistory p) = content p"
  by (simp_all add: pushHistory_def Let_def content_def)

lemma split_picked:
  assumes "distinct ev" "distinct picked" "set picked \<subseteq> set ev"
  shows "mset picked + mset (filter (\<lambda>i. i \<notin> set picked) ev) = mset ev"
proof -
  have "set (filter (\<lambda>i. i \<in> set picked) ev) = set picked" using assms(3) by auto
  moreover have "distinct (filter (\<lambda>i. i \<in> set picked) ev)" using assms(1) by simp
  ultimately have "mset (filter (\<lambda>i. i \<in> set picked) ev) = mset picked"
    using assms(2) by (metis set_eq_iff_mset_eq_distinct)
  moreover have "mset (filter (\<lambda>i. i \<in> set picked) ev) + mset (filter (\<lambda>i. i \<notin> set picked) ev) = mset ev"
    by (induction ev) simp_all
  ultimately show ?thesis by simp
qed

lemma histOK_from_push:
  assumes "length (history q) \<le> 50" "historyIndex q = int (length (history q)) - 1"
    "list_all (\<lambda>sn. snapContent sn = mset ids) (history q)"
  shows "histOK ids q"
  using assms by (simp add: histOK_def)

lemma histOK_cong:
  "history q = history r \<Longrightarrow> historyIndex q = historyIndex r \<Longrightarrow> histOK ids r \<Longrightarrow> histOK ids q"
  by (simp add: histOK_def)

lemma pickerInv_pass:
  assumes d: "distinct ids" and inv: "pickerInv ids p"
  shows "pickerInv ids (pass p)"
proof -
  define q where "q = pushHistory p"
  define r where "r = q\<lparr>survived := survived q @ evaluating q, evaluating := []\<rparr>"
  have pe: "pass p = nextBatch r" unfolding pass_def Let_def q_def r_def ..
  note ph = pushHistory_props [OF inv]
  from inv have cp: "content p = mset ids" by (simp add: pickerInv_def)
  have "content r = content q" by (simp add: content_def r_def ac_simps)
  then have cr: "content r = mset ids" using cp by (simp add: pushHistory_keeps q_def)
  have er: "evaluating r = []" by (simp add: r_def)
  from nextBatch_props [OF d cr er] have nb: "content (nextBatch r) = mset ids"
    "history (nextBatch r) = history r" "historyIndex (nextBatch r) = historyIndex r" by simp_all
  have hq: "histOK ids q" unfolding q_def using ph by (intro histOK_from_push) simp_all
  have "history (nextBatch r) = history q" "historyIndex (nextBatch r) = historyIndex q"
    unfolding nb by (simp_all add: r_def)
  then have "histOK ids (nextBatch r)" by (rule histOK_cong [OF _ _ hq])
  then show ?thesis using nb(1) by (simp add: pickerInv_def pe)
qed

lemma pickerInv_pick:
  assumes d: "distinct ids" and inv: "pickerInv ids p"
    and ok: "distinct picked" "set picked \<subseteq> set (evaluating p)"
  shows "\<exists>p'. pick picked p = Some p' \<and> pickerInv ids p'"
proof -
  define q where "q = (pushHistory p)\<lparr>pickCount := pickCount p + 1\<rparr>"
  define np where "np = filter (\<lambda>i. i \<notin> set picked) (evaluating q)"
  define total where "total = length (current q) + length (survived q) + length (evaluating q)
                             + length (eliminated q)"
  have pk: "pick picked p =
     (if total = 2 \<and> length (evaluating q) = 2 \<and> length picked = 1
         then (case (picked, np) of
                 (x # _, y # _) \<Rightarrow> Some (q\<lparr>favorites := favorites q @ [x, y], evaluating := []\<rparr>)
               | _ \<Rightarrow> None)
         else Some (nextBatch (q\<lparr>survived := survived q @ picked,
                                  eliminated := eliminated q @ map (\<lambda>i. (i, picked)) np,
                                  evaluating := []\<rparr>)))"
    unfolding pick_def Let_def q_def [symmetric] np_def [symmetric] total_def [symmetric] ..
  note ph = pushHistory_props [OF inv]
  from inv have cp: "content p = mset ids" by (simp add: pickerInv_def)
  have "content q = content (pushHistory p)" by (simp add: content_def q_def)
  then have cq: "content q = mset ids" using cp by (simp add: pushHistory_keeps)
  have ev: "evaluating q = evaluating p" by (simp add: pushHistory_keeps q_def)
  have hp: "histOK ids (pushHistory p)" using ph by (intro histOK_from_push) simp_all
  have hq: "histOK ids q" by (rule histOK_cong [OF _ _ hp]) (simp_all add: q_def)
  have "distinct (current q @ survived q @ evaluating q @ map fst (eliminated q) @ favorites q)"
    using distinct_content [OF cq d] .
  then have dev: "distinct (evaluating q)" by simp
  have sp: "mset picked + mset np = mset (evaluating q)"
    unfolding np_def using split_picked [OF dev ok(1)] ok(2) ev by simp
  show ?thesis
  proof (cases "total = 2 \<and> length (evaluating q) = 2 \<and> length picked = 1")
    case True
    then obtain x where x: "picked = [x]" by (cases picked) auto
    from sp have "size (mset picked + mset np) = size (mset (evaluating q))" by simp
    then have "length np = 1" using True x by simp
    then obtain y where y: "np = [y]" by (cases np) auto
    define r where "r = q\<lparr>favorites := favorites q @ [x, y], evaluating := []\<rparr>"
    have "pick picked p = (case (picked, np) of
                 (x # _, y # _) \<Rightarrow> Some (q\<lparr>favorites := favorites q @ [x, y], evaluating := []\<rparr>)
               | _ \<Rightarrow> None)"
      using pk True by (simp only: if_P)
    then have e: "pick picked p = Some r" unfolding x y by (simp add: r_def)
    have "mset [x, y] = mset (evaluating q)" using sp x y by (simp add: add_mset_commute)
    then have "content r = content q" by (simp add: content_def r_def)
    moreover have "histOK ids r" by (rule histOK_cong [OF _ _ hq]) (simp_all add: r_def)
    ultimately show ?thesis using e cq by (simp add: pickerInv_def)
  next
    case False
    define r where "r = q\<lparr>survived := survived q @ picked,
                   eliminated := eliminated q @ map (\<lambda>i. (i, picked)) np, evaluating := []\<rparr>"
    have e: "pick picked p = Some (nextBatch r)"
      unfolding pk if_not_P [OF False] r_def ..
    have m: "map fst (map (\<lambda>i. (i, picked)) np) = np" by (simp add: comp_def)
    have "content r = mset (current q) + mset (survived q) + (mset picked + mset np)
        + mset (map fst (eliminated q)) + mset (favorites q)"
      unfolding content_def r_def using m by (simp add: ac_simps)
    then have cr: "content r = mset ids" unfolding sp using cq by (simp add: content_def)
    have er: "evaluating r = []" by (simp add: r_def)
    from nextBatch_props [OF d cr er] have nb: "content (nextBatch r) = mset ids"
      "history (nextBatch r) = history r" "historyIndex (nextBatch r) = historyIndex r" by simp_all
    have "history (nextBatch r) = history q" "historyIndex (nextBatch r) = historyIndex q"
      unfolding nb by (simp_all add: r_def)
    then have "histOK ids (nextBatch r)" by (rule histOK_cong [OF _ _ hq])
    then show ?thesis using e nb(1) by (simp add: pickerInv_def)
  qed
qed

lemma pickerInv_undo:
  assumes inv: "pickerInv ids p"
  shows "\<exists>p'. undoPick p = Some p' \<and> pickerInv ids p'"
proof (cases "historyIndex p < 0")
  case True
  then show ?thesis using inv by (simp add: undoPick_def)
next
  case False
  from inv have c: "content p = mset ids" and i: "historyIndex p < int (length (history p))"
    "historyIndex p \<le> 49"
    and la: "list_all (\<lambda>sn. snapContent sn = mset ids) (history p)"
    by (simp_all add: pickerInv_def histOK_def)
  define h where "h = (if historyIndex p = int (length (history p)) - 1
                     then history p @ [getStateSnapshot p] else history p)"
  define k where "k = nat (historyIndex p)"
  have kl: "k < length (history p)" using i False by (simp add: k_def)
  then have klh: "k < length h" by (simp add: h_def)
  have sn: "snapContent (getStateSnapshot p) = mset ids"
    using c by (simp add: snapContent_def getStateSnapshot_def content_def)
  have lah: "list_all (\<lambda>sn. snapContent sn = mset ids) h" using la sn by (simp add: h_def)
  have "h ! k = history p ! k" using kl by (simp add: h_def nth_append)
  then have hk: "snapContent (h ! k) = mset ids" using la kl by (simp add: list_all_length)
  let ?r = "(restoreSnapshot (h ! k) (p\<lparr>history := h\<rparr>))\<lparr>historyIndex := historyIndex p - 1\<rparr>"
  have e: "undoPick p = Some ?r"
    unfolding undoPick_def Let_def h_def [symmetric] k_def [symmetric] using False klh by simp
  have "content ?r = snapContent (h ! k)"
    by (simp add: restoreSnapshot_def content_def snapContent_def)
  moreover have "histOK ids ?r"
    using lah False i klh by (simp add: histOK_def restoreSnapshot_def h_def)
  ultimately show ?thesis using e hk by (simp add: pickerInv_def)
qed

lemma pickerInv_step:
  assumes d: "distinct ids" and inv: "pickerInv ids p" and ok: "pickOK p x"
  shows "\<exists>p'. pickerStep p x = Some p' \<and> pickerInv ids p'"
proof (cases x)
  case (Pick picked)
  then show ?thesis using pickerInv_pick [OF d inv] ok by (simp add: pickOK_def)
next
  case Pass
  then show ?thesis using pickerInv_pass [OF d inv] by simp
next
  case Undo
  then show ?thesis using pickerInv_undo [OF inv] by simp
qed

lemma pickerInv_run:
  assumes d: "distinct ids"
  shows "pickerInv ids p \<Longrightarrow> picksValid p ops \<Longrightarrow> \<exists>p'. pickerRun p ops = Some p' \<and> pickerInv ids p'"
proof (induction ops arbitrary: p)
  case Nil
  then show ?case by simp
next
  case (Cons x ops)
  from Cons.prems(2) have ok: "pickOK p x" by simp
  from pickerInv_step [OF d Cons.prems(1) ok] obtain q where q: "pickerStep p x = Some q" "pickerInv ids q"
    by blast
  with Cons.prems(2) have "picksValid q ops" by simp
  from Cons.IH [OF q(2) this] q(1) show ?case by simp
qed

lemma pickerInv_initialize:
  assumes d: "distinct ids"
  shows "pickerInv ids (initialize ids t)"
proof -
  obtain sh t' where s: "shuffle ids t = (sh, t')" by (cases "shuffle ids t")
  let ?p = "\<lparr>allItems = ids, eliminated = [], survived = [], current = sh, evaluating = [],
                    favorites = [], history = [], historyIndex = - 1,
                    batchSize = calculateBatchSize (length sh), pickCount = 0, tape = t'\<rparr>"
  have c: "content ?p = mset ids" using shuffle_mset [OF s] by (simp add: content_def)
  from nextBatch_props [OF d c] have "content (nextBatch ?p) = mset ids"
    "history (nextBatch ?p) = []" "historyIndex (nextBatch ?p) = - 1" by simp_all
  then show ?thesis unfolding initialize_def s by (simp add: pickerInv_def histOK_def)
qed

text \<open>
  C5. For distinct candidate ids, any tape of random numbers and any sequence of pick,
  pass and undo in which every pick names different ids of the batch on display: no
  operation throws, and afterwards every id is in exactly one of current, survived,
  evaluating, eliminated and favorites.
\<close>

theorem picker_partition:
  assumes "distinct ids" and "picksValid (initialize ids t) ops"
  shows "\<exists>p. pickerRun (initialize ids t) ops = Some p
           \<and> mset (current p @ survived p @ evaluating p @ map fst (eliminated p) @ favorites p) = mset ids
           \<and> distinct (current p @ survived p @ evaluating p @ map fst (eliminated p) @ favorites p)"
proof -
  from pickerInv_run [OF assms(1) pickerInv_initialize [OF assms(1)] assms(2)]
  obtain p where p: "pickerRun (initialize ids t) ops = Some p" "pickerInv ids p" by blast
  then have c: "content p = mset ids" by (simp add: pickerInv_def)
  then have "mset (current p @ survived p @ evaluating p @ map fst (eliminated p) @ favorites p) = mset ids"
    by (simp add: content_def ac_simps)
  with p(1) distinct_content [OF c assms(1)] show ?thesis by blast
qed

theorem picker_partition_witness:
  "distinct [''a'', ''b'', ''c'']
   \<and> picksValid (initialize [''a'', ''b'', ''c''] [1, 0, 1, 1, 0]) [Pick [''c''], Undo, Pick [''a''], Pick [''b'']]
   \<and> map_option (\<lambda>p. (current p, survived p, evaluating p, eliminated p, favorites p))
        (pickerRun (initialize [''a'', ''b'', ''c''] [1, 0, 1, 1, 0]) [Pick [''c''], Undo, Pick [''a''], Pick [''b'']])
       = Some ([], [], [''a''], [(''c'', [''a''])], [''b''])
   \<and> (\<exists>p. pickerRun (initialize [''a'', ''b'', ''c''] [1, 0, 1, 1, 0]) [Pick [''c''], Undo, Pick [''a''], Pick [''b'']] = Some p
           \<and> mset (current p @ survived p @ evaluating p @ map fst (eliminated p) @ favorites p) = mset [''a'', ''b'', ''c'']
           \<and> distinct (current p @ survived p @ evaluating p @ map fst (eliminated p) @ favorites p))"
proof -
  have h1: "distinct [''a'', ''b'', ''c'']" by simp
  have h2: "picksValid (initialize [''a'', ''b'', ''c''] [1, 0, 1, 1, 0]) [Pick [''c''], Undo, Pick [''a''], Pick [''b'']]"
    by code_simp
  have h3: "map_option (\<lambda>p. (current p, survived p, evaluating p, eliminated p, favorites p))
        (pickerRun (initialize [''a'', ''b'', ''c''] [1, 0, 1, 1, 0]) [Pick [''c''], Undo, Pick [''a''], Pick [''b'']])
       = Some ([], [], [''a''], [(''c'', [''a''])], [''b''])"
    by code_simp
  from picker_partition [OF h1 h2] h1 h2 h3 show ?thesis by blast
qed


section \<open>Back in the merge driver\<close>

lemma pushUndoSnapshot_undo:
  "undo (pushUndoSnapshot s) = drop (Suc (length (undo s)) - MAX_UNDO) (undo s @ [snapshotOf s])"
  by (simp add: pushUndoSnapshot_def Let_def del: drop_append)

lemma undo_setFrame [simp]: "undo (setFrame g s) = undo s"
  by (simp add: setFrame_def)

lemma outerStep_undo: "undo (outerStep s) = undo s"
  by (simp add: outerStep_def Let_def split: option.splits)

lemma outerStep_pc: "pc s = AtOuter \<Longrightarrow> pc (outerStep s) \<noteq> Waiting a b"
  by (simp add: outerStep_def Let_def split: option.splits)

lemma applyRes_undo: "r \<noteq> BACK \<Longrightarrow> undo (applyRes r s) = undo s"
  by (cases r) (simp_all add: applyRes_def split: option.splits)

lemma applyRes_pc: "stack s \<noteq> None \<Longrightarrow> pc (applyRes r s) = AtInner"
  by (cases r) (auto simp: applyRes_def restoreFromUndo_def Let_def split: option.splits)

lemma finish_keeps [simp]: "undo (finish a b r s) = undo s" "stack (finish a b r s) = stack s"
  "pc (finish a b r s) = pc s"
  by (cases r; simp add: finish_def Let_def)+

lemma snapshotOf_push [simp]: "snapshotOf ((pushUndoSnapshot s)\<lparr>pc := p\<rparr>) = snapshotOf s"
  by (simp add: snapshotOf_def pushUndoSnapshot_def Let_def)

lemma push_keeps [simp]: "stack (pushUndoSnapshot s) = stack s" "cache (pushUndoSnapshot s) = cache s"
  by (simp_all add: pushUndoSnapshot_def Let_def)

text \<open>What a turn of the inner loop does to the undo stack.\<close>

lemma ask_undo:
  "\<exists>s0. s0 = s \<and> undo (ask a b s) = undo (pushUndoSnapshot s0)
        \<and> (\<forall>a' b'. pc (ask a b s) = Waiting a' b' \<longrightarrow> stack s \<noteq> None \<longrightarrow> snapshotOf (ask a b s) = snapshotOf s0)"
proof (cases "map_of (cache (pushUndoSnapshot s)) (keyFor a b)")
  case None
  then show ?thesis by (simp add: ask_def Let_def)
next
  case (Some v)
  then have e: "ask a b s = applyRes (Num v) (pushUndoSnapshot s)" by (simp add: ask_def Let_def)
  have "stack s \<noteq> None \<Longrightarrow> pc (ask a b s) = AtInner" unfolding e by (rule applyRes_pc) simp
  then show ?thesis unfolding e by (auto simp: applyRes_undo)
qed

lemma innerStep_undo:
  assumes "pc s = AtInner"
  shows "(undo (innerStep s) = undo s \<and> (\<forall>a b. pc (innerStep s) \<noteq> Waiting a b))
       \<or> (\<exists>s0. undo s0 = undo s \<and> undo (innerStep s) = undo (pushUndoSnapshot s0)
              \<and> (\<forall>a b. pc (innerStep s) = Waiting a b \<longrightarrow>
                     snapshotOf (innerStep s) = snapshotOf s0 \<and> stack (innerStep s) \<noteq> None))"
proof (cases "stack s")
  case None
  then show ?thesis using assms by (simp add: innerStep_def)
next
  case (Some st)
  let ?a = "st_L st ! st_li st" and ?b = "st_R st ! st_rj st"
  let ?st1 = "st\<lparr>st_rj := st_rj st + 1\<rparr>"
  let ?b' = "st_R ?st1 ! st_rj ?st1"
  have askc: "\<exists>s0. undo s0 = undo s \<and> undo (ask x y t) = undo (pushUndoSnapshot s0)
              \<and> (\<forall>a b. pc (ask x y t) = Waiting a b \<longrightarrow>
                     snapshotOf (ask x y t) = snapshotOf s0 \<and> stack (ask x y t) \<noteq> None)"
    if t: "undo t = undo s" "stack t \<noteq> None" for x y t
  proof -
    have w: "pc (ask x y t) = Waiting a b \<Longrightarrow> stack (ask x y t) \<noteq> None" for a b
      using t(2) by (cases "map_of (cache (pushUndoSnapshot t)) (keyFor x y)")
        (auto simp: ask_def Let_def applyRes_pc)
    from ask_undo [where s = t and a = x and b = y] t w show ?thesis by auto
  qed
  consider (exhausted) "\<not> (st_li st < length (st_L st) \<and> st_rj st < length (st_R st))"
    | (nol) "st_li st < length (st_L st) \<and> st_rj st < length (st_R st)" "?a \<notin> set (data s)"
    | (nor) "st_li st < length (st_L st) \<and> st_rj st < length (st_R st)" "?a \<in> set (data s)" "?b \<notin> set (data s)"
    | (self_end) "st_li st < length (st_L st) \<and> st_rj st < length (st_R st)" "?a \<in> set (data s)" "?b \<in> set (data s)"
        "?a = ?b" "st_rj ?st1 \<ge> length (st_R ?st1)"
    | (self_threw) "st_li st < length (st_L st) \<and> st_rj st < length (st_R st)" "?a \<in> set (data s)" "?b \<in> set (data s)"
        "?a = ?b" "\<not> st_rj ?st1 \<ge> length (st_R ?st1)" "?b' \<notin> set (data s)"
    | (self_ask) "st_li st < length (st_L st) \<and> st_rj st < length (st_R st)" "?a \<in> set (data s)" "?b \<in> set (data s)"
        "?a = ?b" "\<not> st_rj ?st1 \<ge> length (st_R ?st1)" "?b' \<in> set (data s)"
    | (ask) "st_li st < length (st_L st) \<and> st_rj st < length (st_R st)" "?a \<in> set (data s)" "?b \<in> set (data s)"
        "?a \<noteq> ?b"
    by blast
  then show ?thesis
  proof cases
    case exhausted
    then have "innerStep s = (setFrame (afterLoop st) s)\<lparr>pc := AtOuter\<rparr>"
      using Some by (auto simp add: innerStep_def)
    then show ?thesis by simp
  next
    case nol
    then have "innerStep s = setFrame (st\<lparr>st_li := st_li st + 1\<rparr>) s"
      using Some by (simp add: innerStep_def Let_def)
    then show ?thesis using assms by (simp add: setFrame_def)
  next
    case nor
    then have "innerStep s = setFrame (st\<lparr>st_rj := st_rj st + 1\<rparr>) s"
      using Some by (simp add: innerStep_def Let_def)
    then show ?thesis using assms by (simp add: setFrame_def)
  next
    case self_end
    then have "innerStep s = (setFrame (afterLoop ?st1) s)\<lparr>pc := AtOuter\<rparr>"
      using Some by (simp add: innerStep_def Let_def)
    then show ?thesis by simp
  next
    case self_threw
    then have e: "innerStep s = (pushUndoSnapshot (setFrame ?st1 s))\<lparr>pc := Threw\<rparr>"
      using Some by (simp add: innerStep_def Let_def)
    have "undo (setFrame ?st1 s) = undo s \<and> undo (innerStep s) = undo (pushUndoSnapshot (setFrame ?st1 s))
        \<and> (\<forall>a b. pc (innerStep s) \<noteq> Waiting a b)"
      unfolding e by simp
    then show ?thesis by blast
  next
    case self_ask
    then have e: "innerStep s = ask ?a ?b' (setFrame ?st1 s)"
      using Some by (simp add: innerStep_def Let_def)
    show ?thesis unfolding e using askc [where t = "setFrame ?st1 s" and x = ?a and y = ?b'] by (simp add: setFrame_def)
  next
    case ask
    then have e: "innerStep s = ask ?a ?b s"
      using Some by (simp add: innerStep_def Let_def)
    show ?thesis unfolding e using askc [where t = s and x = ?a and y = ?b] Some by simp
  qed
qed

lemma push_length:
  "length (undo s) < MAX_UNDO \<Longrightarrow> undo (pushUndoSnapshot s) = undo s @ [snapshotOf s]"
  "length (undo s) \<le> MAX_UNDO \<Longrightarrow> length (undo s) \<le> length (undo (pushUndoSnapshot s))
      \<and> length (undo (pushUndoSnapshot s)) \<le> MAX_UNDO"
  by (simp_all add: pushUndoSnapshot_def Let_def del: drop_append)

text \<open>
  Between two prompts, with no click left, the driver only turns its loops. The undo
  stack does not shrink; when it has the same length at the end it is unchanged; and
  when it has grown by one at a prompt, the new top is the snapshot of that prompt.
\<close>

lemma run_Suc_silent:
  "run (Suc n) s [] =
     (if pc s = AtOuter then run n (outerStep s) []
      else if pc s = AtInner then run n (innerStep s) [] else s)"
  by (cases "pc s") simp_all

lemma run_undo_mono:
  "length (undo s) \<le> MAX_UNDO \<Longrightarrow>
     length (undo s) \<le> length (undo (run n s [])) \<and> length (undo (run n s [])) \<le> MAX_UNDO"
proof (induction n arbitrary: s)
  case 0
  then show ?case by simp
next
  case (Suc n)
  consider (outer) "pc s = AtOuter" | (inner) "pc s = AtInner" | (stop) "pc s \<noteq> AtOuter" "pc s \<noteq> AtInner"
    by blast
  then show ?case
  proof cases
    case outer
    then show ?thesis using Suc.IH [of "outerStep s"] Suc.prems
      by (simp add: run_Suc_silent outerStep_undo del: run.simps)
  next
    case inner
    from innerStep_undo [OF inner] have "length (undo s) \<le> length (undo (innerStep s))
        \<and> length (undo (innerStep s)) \<le> MAX_UNDO"
      using Suc.prems push_length(2) by (metis order_refl)
    then show ?thesis using Suc.IH [of "innerStep s"] inner by (simp add: run_Suc_silent del: run.simps)
  next
    case stop
    then show ?thesis using Suc.prems by (simp add: run_Suc_silent del: run.simps)
  qed
qed

lemma run_undo_same:
  "length (undo s) < MAX_UNDO \<Longrightarrow> length (undo (run n s [])) = length (undo s) \<Longrightarrow>
     undo (run n s []) = undo s \<and> (\<forall>a b. pc (run n s []) = Waiting a b \<longrightarrow> run n s [] = s)"
proof (induction n arbitrary: s)
  case 0
  then show ?case by simp
next
  case (Suc n)
  consider (outer) "pc s = AtOuter" | (inner) "pc s = AtInner" | (stop) "pc s \<noteq> AtOuter" "pc s \<noteq> AtInner"
    by blast
  then show ?case
  proof cases
    case outer
    have r: "run (Suc n) s [] = run n (outerStep s) []" using outer by (simp add: run_Suc_silent del: run.simps)
    from Suc.IH [of "outerStep s"] Suc.prems
    have "undo (run n (outerStep s) []) = undo s
        \<and> (\<forall>a b. pc (run n (outerStep s) []) = Waiting a b \<longrightarrow> run n (outerStep s) [] = outerStep s)"
      unfolding r by (simp add: outerStep_undo)
    then show ?thesis unfolding r using outerStep_pc [OF outer] by metis
  next
    case inner
    have r: "run (Suc n) s [] = run n (innerStep s) []" using inner by (simp add: run_Suc_silent del: run.simps)
    from innerStep_undo [OF inner] show ?thesis
    proof (elim disjE conjE exE)
      assume u: "undo (innerStep s) = undo s" and w: "\<forall>a b. pc (innerStep s) \<noteq> Waiting a b"
      from Suc.IH [of "innerStep s"] Suc.prems u
      have "undo (run n (innerStep s) []) = undo s
        \<and> (\<forall>a b. pc (run n (innerStep s) []) = Waiting a b \<longrightarrow> run n (innerStep s) [] = innerStep s)"
        unfolding r by simp
      then show ?thesis unfolding r using w by metis
    next
      fix s0
      assume u: "undo s0 = undo s" "undo (innerStep s) = undo (pushUndoSnapshot s0)"
      then have "length (undo (innerStep s)) = Suc (length (undo s))"
        using push_length(1) [of s0] Suc.prems(1) by simp
      moreover from this have "length (undo (innerStep s)) \<le> MAX_UNDO" using Suc.prems(1) by simp
      ultimately have "Suc (length (undo s)) \<le> length (undo (run n (innerStep s) []))"
        using run_undo_mono [of "innerStep s" n] by simp
      then show ?thesis using Suc.prems(2) unfolding r by simp
    qed
  next
    case stop
    then show ?thesis by (simp add: run_Suc_silent del: run.simps)
  qed
qed

lemma run_one_push:
  "Suc (length (undo s)) < MAX_UNDO \<Longrightarrow> pc s = AtOuter \<or> pc s = AtInner \<Longrightarrow>
     pc (run n s []) = Waiting a b \<Longrightarrow> length (undo (run n s [])) = Suc (length (undo s)) \<Longrightarrow>
     undo (run n s []) = undo s @ [snapshotOf (run n s [])] \<and> stack (run n s []) \<noteq> None"
proof (induction n arbitrary: s)
  case 0
  then show ?case by auto
next
  case (Suc n)
  from Suc.prems(2) show ?case
  proof
    assume outer: "pc s = AtOuter"
    have r: "run (Suc n) s [] = run n (outerStep s) []" using outer by (simp add: run_Suc_silent del: run.simps)
    have pcs: "pc (outerStep s) = AtOuter \<or> pc (outerStep s) = AtInner"
    proof (rule ccontr)
      assume "\<not> ?thesis"
      then have "run n (outerStep s) [] = outerStep s" by (cases n; cases "pc (outerStep s)") simp_all
      then show False using Suc.prems(3,4) unfolding r by (simp add: outerStep_undo)
    qed
    from Suc.IH [of "outerStep s", OF _ pcs] Suc.prems(1,3,4) show ?thesis
      unfolding r by (simp add: outerStep_undo)
  next
    assume inner: "pc s = AtInner"
    have r: "run (Suc n) s [] = run n (innerStep s) []" using inner by (simp add: run_Suc_silent del: run.simps)
    from innerStep_undo [OF inner] show ?thesis
    proof (elim disjE conjE exE)
      assume u: "undo (innerStep s) = undo s" and w: "\<forall>a b. pc (innerStep s) \<noteq> Waiting a b"
      have pcs: "pc (innerStep s) = AtOuter \<or> pc (innerStep s) = AtInner"
      proof (rule ccontr)
        assume "\<not> ?thesis"
        then have "run n (innerStep s) [] = innerStep s" by (cases n; cases "pc (innerStep s)") simp_all
        then show False using Suc.prems(3,4) u unfolding r by simp
      qed
      from Suc.IH [of "innerStep s", OF _ pcs] Suc.prems(1,3,4) u show ?thesis
        unfolding r by simp
    next
      fix s0
      assume u: "undo s0 = undo s" "undo (innerStep s) = undo (pushUndoSnapshot s0)"
        and w: "\<forall>a b. pc (innerStep s) = Waiting a b \<longrightarrow>
                     snapshotOf (innerStep s) = snapshotOf s0 \<and> stack (innerStep s) \<noteq> None"
      have ui: "undo (innerStep s) = undo s @ [snapshotOf s0]"
        using u push_length(1) [of s0] Suc.prems(1) by simp
      then have li: "length (undo (innerStep s)) < MAX_UNDO" using Suc.prems(1) by simp
      have "length (undo (run n (innerStep s) [])) = length (undo (innerStep s))"
        using Suc.prems(4) ui unfolding r by simp
      from run_undo_same [OF li this] Suc.prems(3)
      have same: "undo (run n (innerStep s) []) = undo (innerStep s)" "run n (innerStep s) [] = innerStep s"
        unfolding r by auto
      then have "pc (innerStep s) = Waiting a b" using Suc.prems(3) unfolding r by simp
      with w have "snapshotOf (innerStep s) = snapshotOf s0" "stack (innerStep s) \<noteq> None" by auto
      then show ?thesis unfolding r same ui by simp
    qed
  qed
qed

text \<open>At a prompt the top of the undo stack is the snapshot of the prompt itself.\<close>

lemma waiting_snapshot:
  assumes "pc s = AtInner" "pc (innerStep s) = Waiting a b"
  shows "undo (innerStep s) \<noteq> [] \<and> last (undo (innerStep s)) = snapshotOf (innerStep s)
       \<and> stack (innerStep s) \<noteq> None"
proof -
  from innerStep_undo [OF assms(1)] assms(2) obtain s0 where
    u: "undo (innerStep s) = undo (pushUndoSnapshot s0)"
      "snapshotOf (innerStep s) = snapshotOf s0" "stack (innerStep s) \<noteq> None"
    by auto
  let ?u = "undo s0 @ [snapshotOf s0]"
  have d: "undo (pushUndoSnapshot s0) = drop (Suc (length (undo s0)) - MAX_UNDO) ?u"
    by (rule pushUndoSnapshot_undo)
  have k: "Suc (length (undo s0)) - MAX_UNDO < length ?u" by (simp add: MAX_UNDO_def)
  then have "drop (Suc (length (undo s0)) - MAX_UNDO) ?u \<noteq> []" by simp
  moreover from this have "last (drop (Suc (length (undo s0)) - MAX_UNDO) ?u) = last ?u"
    by (metis k last_drop)
  ultimately show ?thesis using u d by simp
qed

text \<open>
  One Back. Let the driver be at a request for a judgment (\<open>innerStep s0\<close> waits for \<open>a\<close>
  against \<open>b\<close>), let the click be anything but Back, and let the driver reach its next
  request having pushed one snapshot, fewer than \<open>MAX_UNDO\<close> being held. Then Back at that
  request restores the frame, the comparison cache and the tie set of the earlier request
  and re-enters the inner loop.
\<close>

lemma back_restores_previous_request:
  assumes "pc s0 = AtInner" and "pc (innerStep s0) = Waiting a b"
    and "c \<noteq> Back"
    and "pc (run n (answer c (innerStep s0)) []) = Waiting a' b'"
    and "length (undo (run n (answer c (innerStep s0)) [])) = Suc (length (undo (innerStep s0)))"
    and "Suc (length (undo (innerStep s0))) < MAX_UNDO"
  shows "stack (answer Back (run n (answer c (innerStep s0)) [])) = stack (innerStep s0)
       \<and> cache (answer Back (run n (answer c (innerStep s0)) [])) = cache (innerStep s0)
       \<and> ties (answer Back (run n (answer c (innerStep s0)) [])) = ties (innerStep s0)
       \<and> length (undo (answer Back (run n (answer c (innerStep s0)) []))) = length (undo (innerStep s0))
       \<and> pc (answer Back (run n (answer c (innerStep s0)) [])) = AtInner"
proof -
  define s1 where "s1 = innerStep s0"
  define s2 where "s2 = answer c s1"
  define s3 where "s3 = run n s2 []"
  from waiting_snapshot [OF assms(1,2)] have w: "undo s1 \<noteq> []" "last (undo s1) = snapshotOf s1"
    and st1: "stack s1 \<noteq> None" by (simp_all add: s1_def)
  have r: "valueOf c \<noteq> BACK" using assms(3) by (cases c) simp_all
  have s2e: "s2 = applyRes (valueOf c) (finish a b (valueOf c) s1)"
    using assms(2) by (simp add: s2_def s1_def answer_def)
  have u2: "undo s2 = undo s1" unfolding s2e using r by (simp add: applyRes_undo)
  have p2: "pc s2 = AtInner" unfolding s2e using st1 by (simp add: applyRes_pc)
  have a4: "pc s3 = Waiting a' b'" and a5: "length (undo s3) = Suc (length (undo s2))"
    and a6: "Suc (length (undo s2)) < MAX_UNDO"
    using assms(4,5,6) by (simp_all add: s3_def s2_def s1_def u2 [unfolded s2_def s1_def])
  from run_one_push [of s2 n a' b'] a4 a5 a6 p2
  have u3: "undo s3 = undo s1 @ [snapshotOf s3]" and st3: "stack s3 \<noteq> None"
    by (simp_all add: s3_def u2)
  obtain f3 where f3: "stack s3 = Some f3" using st3 by auto
  obtain f1 where f1: "stack s1 = Some f1" using st1 by auto
  have bl: "butlast (undo s3) = undo s1" unfolding u3 by simp
  have ln: "\<not> length (undo s3) < 2" unfolding u3 using w(1) by (cases "undo s1") simp_all
  have ab: "answer Back s3 = applyRes BACK s3" using a4 by (simp add: answer_def finish_def)
  have "stack (applyRes BACK s3) = stack s1 \<and> cache (applyRes BACK s3) = cache s1
      \<and> ties (applyRes BACK s3) = ties s1 \<and> length (undo (applyRes BACK s3)) = length (undo s1)
      \<and> pc (applyRes BACK s3) = AtInner"
    using f3 ln f1 unfolding applyRes_def restoreFromUndo_def
    by (simp add: Let_def bl w(2) snapshotOf_def setFrame_def)
  then show ?thesis using ab by (simp add: s3_def s2_def s1_def)
qed

text \<open>
  C4. On A, B, C, D the driver first asks for A against B, with an empty cache. With the
  second request pending, one Back restores that first request: frame, cache and tie set.
  With the third request pending (A>B and C>D judged), the first Back restores the second
  request, C against D, with A>B cached. The driver then asks again and pushes a snapshot
  of the restored state, so the second Back restores the same second request: the run does
  not come back to the state before the first judgment.
\<close>

theorem repeated_back_stuck:
  "map_option (\<lambda>s. (pc s, cache s, ties s)) (abcd []) = Some (Waiting ''A'' ''B'', [], [])
   \<and> map_option (\<lambda>s. (pc s, stack s, cache s, ties s)) (abcd [Left, Back])
       = map_option (\<lambda>s. (pc s, stack s, cache s, ties s)) (abcd [])
   \<and> map_option (\<lambda>s. (pc s, cache s, ties s)) (abcd [Left, Left])
       = Some (Waiting ''A'' ''C'', [(''A|B'', 1), (''B|A'', - 1), (''C|D'', 1), (''D|C'', - 1)], [])
   \<and> map_option (\<lambda>s. (pc s, cache s, ties s)) (abcd [Left, Left, Back])
       = Some (Waiting ''C'' ''D'', [(''A|B'', 1), (''B|A'', - 1)], [])
   \<and> map_option (\<lambda>s. (pc s, stack s, cache s, ties s)) (abcd [Left, Left, Back, Back])
       = map_option (\<lambda>s. (pc s, stack s, cache s, ties s)) (abcd [Left, Left, Back])
   \<and> map_option stack (abcd [Left, Left, Back, Back]) \<noteq> map_option stack (abcd [])
   \<and> map_option cache (abcd [Left, Left, Back, Back]) \<noteq> map_option cache (abcd [])"
  by code_simp


section \<open>Bounds of the undo stacks\<close>

lemma nextBatch_history:
  "history (nextBatch p) = history p \<and> historyIndex (nextBatch p) = historyIndex p"
proof (induction p rule: nextBatch.induct)
  case (1 p)
  let ?p1 = "restoreIfStuck p"
  show ?case
  proof (cases "length (current ?p1) < batchSize ?p1 \<and> survived ?p1 \<noteq> []")
    case True
    have e: "nextBatch p = nextBatch (nextRoundCore ?p1)"
      by (subst nextBatch.simps) (simp only: Let_def if_P [OF True])
    show ?thesis unfolding e using "1.IH" [OF refl True] keep_nextRoundCore [of ?p1] restoreIfStuck_props [of p]
      by simp
  next
    case False
    have e: "nextBatch p = ?p1\<lparr>evaluating := take (batchSize ?p1) (current ?p1),
                 current := drop (batchSize ?p1) (current ?p1)\<rparr>"
      by (subst nextBatch.simps) (simp only: Let_def if_not_P [OF False])
    show ?thesis unfolding e using restoreIfStuck_props [of p] by simp
  qed
qed

lemma pass_history: "history (pass p) = history (pushHistory p)"
  by (simp add: pass_def Let_def nextBatch_history)

lemma pick_history: "pick picked p = Some p' \<Longrightarrow> history p' = history (pushHistory p)"
  by (auto simp: pick_def Let_def nextBatch_history split: if_splits list.splits)

lemma pushHistory_shape:
  assumes inv: "pickerInv ids p"
  shows "\<exists>k. history (pushHistory p)
            = drop k (take (nat (historyIndex p + 1)) (history p) @ [getStateSnapshot p])
          \<and> history (pushHistory p) \<noteq> []"
proof -
  from inv have i: "- 1 \<le> historyIndex p" "historyIndex p < int (length (history p))"
    by (simp_all add: pickerInv_def histOK_def)
  define h1 where "h1 = (if historyIndex p < int (length (history p)) - 1
                then sliceTo (historyIndex p + 1) (history p) else history p)"
  define h2 where "h2 = h1 @ [getStateSnapshot p]"
  have h1t: "h1 = take (nat (historyIndex p + 1)) (history p)"
    using i by (auto simp: h1_def sliceTo_def)
  have e: "pushHistory p = (if length h2 > 50 then p\<lparr>history := tl h2, historyIndex := int (length h2) - 1 - 1\<rparr>
         else p\<lparr>history := h2, historyIndex := int (length h2) - 1\<rparr>)"
    unfolding pushHistory_def Let_def h1_def [symmetric] h2_def [symmetric] ..
  show ?thesis
  proof (cases "length h2 > 50")
    case True
    then have "history (pushHistory p) = drop 1 h2" unfolding e by (simp add: drop_Suc)
    moreover have "drop 1 h2 \<noteq> []" using True by simp
    ultimately show ?thesis unfolding h2_def h1t by metis
  next
    case False
    then have "history (pushHistory p) = drop 0 h2" unfolding e by simp
    moreover have "h2 \<noteq> []" by (simp add: h2_def)
    ultimately show ?thesis unfolding h2_def h1t by (metis drop0)
  qed
qed

text \<open>The undo stack along a run of the merge driver, for any clicks.\<close>

lemma applyRes_undo_le: "length (undo (applyRes r s)) \<le> length (undo s)"
proof (cases "r = BACK")
  case True
  show ?thesis unfolding True
    by (cases "stack s") (simp_all add: applyRes_def restoreFromUndo_def Let_def)
next
  case False
  then show ?thesis by (simp add: applyRes_undo)
qed

lemma answer_undo_le: "length (undo (answer c s)) \<le> length (undo s)"
proof (cases "pc s")
  case (Waiting a b)
  then have "answer c s = applyRes (valueOf c) (finish a b (valueOf c) s)" by (simp add: answer_def)
  then show ?thesis using applyRes_undo_le [of "valueOf c" "finish a b (valueOf c) s"] by simp
qed (simp_all add: answer_def)

lemma run_undo_bounded:
  "length (undo s) \<le> MAX_UNDO \<Longrightarrow> length (undo (run n s cs)) \<le> MAX_UNDO"
proof (induction n arbitrary: s cs)
  case 0
  then show ?case by simp
next
  case (Suc n)
  show ?case
  proof (cases "pc s")
    case AtOuter
    then show ?thesis using Suc.IH [of "outerStep s" cs] Suc.prems by (simp add: outerStep_undo)
  next
    case AtInner
    from innerStep_undo [OF AtInner] have "length (undo (innerStep s)) \<le> MAX_UNDO"
      using Suc.prems push_length(2) by metis
    then show ?thesis using Suc.IH [of "innerStep s" cs] AtInner by simp
  next
    case (Waiting a b)
    show ?thesis
    proof (cases cs)
      case Nil
      then show ?thesis using Waiting Suc.prems by simp
    next
      case (Cons c cs')
      have "length (undo (answer c s)) \<le> MAX_UNDO"
        using answer_undo_le [of c s] Suc.prems by simp
      then show ?thesis using Suc.IH [of "answer c s" cs'] Waiting Cons by simp
    qed
  next
    case Finished
    then show ?thesis using Suc.prems by simp
  next
    case Threw
    then show ?thesis using Suc.prems by simp
  qed
qed

lemma initSort_undo: "initSort items s0 = Some s1 \<Longrightarrow> length (undo (continueSort s1)) = 1"
  by (auto simp: initSort_def continueSort_def pushUndoSnapshot_def Let_def MAX_UNDO_def
           split: if_splits option.splits)

lemma sorting_undo_bounded:
  assumes "initSort items s0 = Some s1"
  shows "length (undo (run fuel (continueSort s1) cs)) \<le> 2000"
  using run_undo_bounded [of "continueSort s1" fuel cs] initSort_undo [OF assms]
  by (simp add: MAX_UNDO_def)

text \<open>
  C9. After \<open>pushUndoSnapshot\<close>, which the MergeSort and ELO drivers call before every
  judgment, the undo stack holds at most 2000 snapshots: the old stack with the new
  snapshot on top, cut from the front, so that the oldest go first. In every state of a
  run of the MergeSort driver, whatever the clicks, it holds at most 2000. In the
  elimination picker, in every state that pick, pass and undo can reach, the history after
  a pick or a pass holds at most 2000 snapshots; it is the history up to the index with
  the new snapshot on top, cut from the front, and it holds at most 50.
\<close>

theorem undo_stacks_bounded:
  assumes "distinct ids" and "picksValid (initialize ids t) ops"
    and "pickerRun (initialize ids t) ops = Some p"
  shows "length (undo (pushUndoSnapshot s)) \<le> 2000
       \<and> undo (pushUndoSnapshot s) = drop (Suc (length (undo s)) - 2000) (undo s @ [snapshotOf s])
       \<and> (case initSort items s0 of None \<Rightarrow> True
            | Some s1 \<Rightarrow> length (undo (run fuel (continueSort s1) cs)) \<le> 2000)
       \<and> length (history (pass p)) \<le> 2000
       \<and> (case pick picked p of None \<Rightarrow> True | Some p' \<Rightarrow> length (history p') \<le> 2000)
       \<and> length (history (pushHistory p)) \<le> 50
       \<and> (\<exists>k. history (pushHistory p)
                 = drop k (take (nat (historyIndex p + 1)) (history p) @ [getStateSnapshot p]))
       \<and> history (pass p) = history (pushHistory p)
       \<and> (case pick picked p of None \<Rightarrow> True | Some p' \<Rightarrow> history p' = history (pushHistory p))"
proof -
  from pickerInv_run [OF assms(1) pickerInv_initialize [OF assms(1)] assms(2)] assms(3)
  have inv: "pickerInv ids p" by simp
  have a: "undo (pushUndoSnapshot s) = drop (Suc (length (undo s)) - 2000) (undo s @ [snapshotOf s])"
    using pushUndoSnapshot_undo [of s] by (simp add: MAX_UNDO_def)
  then have b: "length (undo (pushUndoSnapshot s)) \<le> 2000" by simp
  have c: "length (history (pushHistory p)) \<le> 50" using pushHistory_props [OF inv] by simp
  have d: "\<exists>k. history (pushHistory p)
                 = drop k (take (nat (historyIndex p + 1)) (history p) @ [getStateSnapshot p])"
    using pushHistory_shape [OF inv] by blast
  have e: "case pick picked p of None \<Rightarrow> True | Some p' \<Rightarrow> history p' = history (pushHistory p)"
    using pick_history by (cases "pick picked p") simp_all
  have f: "length (history (pass p)) \<le> 2000" using c by (simp add: pass_history)
  have g: "case pick picked p of None \<Rightarrow> True | Some p' \<Rightarrow> length (history p') \<le> 2000"
    using c pick_history by (cases "pick picked p") simp_all
  have h: "case initSort items s0 of None \<Rightarrow> True
            | Some s1 \<Rightarrow> length (undo (run fuel (continueSort s1) cs)) \<le> 2000"
    using sorting_undo_bounded by (cases "initSort items s0") simp_all
  from a b c d e f g h pass_history show ?thesis by blast
qed

theorem undo_stacks_bounded_witness:
  "distinct [''a'', ''b'', ''c''] \<and> picksValid (initialize [''a'', ''b'', ''c''] []) (replicate 51 Pass)
   \<and> map_option (\<lambda>p. length (history p)) (pickerRun (initialize [''a'', ''b'', ''c''] []) (replicate 51 Pass)) = Some 50
   \<and> (\<exists>p. pickerRun (initialize [''a'', ''b'', ''c''] []) (replicate 51 Pass) = Some p
          \<and> length (history (pass p)) \<le> 2000 \<and> length (history (pushHistory p)) \<le> 50)
   \<and> length (undo (pushUndoSnapshot (defaultState [] :: unit sorter))) \<le> 2000"
proof -
  have h1: "distinct [''a'', ''b'', ''c'']" by simp
  have h2: "picksValid (initialize [''a'', ''b'', ''c''] []) (replicate 51 Pass)" by code_simp
  have h3: "map_option (\<lambda>p. length (history p)) (pickerRun (initialize [''a'', ''b'', ''c''] []) (replicate 51 Pass)) = Some 50"
    by code_simp
  then obtain p where p: "pickerRun (initialize [''a'', ''b'', ''c''] []) (replicate 51 Pass) = Some p" by auto
  from undo_stacks_bounded [OF h1 h2 p, of "defaultState [] :: unit sorter"] h1 h2 h3 p show ?thesis by blast
qed


section \<open>Completion of the merge driver\<close>

text \<open>
  A measure of what is left of a run: the widths still to come, the blocks still to
  come at this width, and within a block the control point and the elements the cursors
  have not passed. Every turn of a loop and every judgment makes it smaller.
\<close>

definition pending :: "frame \<Rightarrow> nat" where
  "pending f = length (st_L f) + length (st_R f) - (st_li f + st_rj f)"

fun rank :: "pc \<Rightarrow> nat \<Rightarrow> frame \<Rightarrow> nat" where
  "rank AtOuter n f = 2 * n + 3"
| "rank AtInner n f = 2 * pending f + 1"
| "rank (Waiting a b) n f = 2 * pending f"
| "rank Finished n f = 0"
| "rank Threw n f = 0"

definition mu :: "'e sorter \<Rightarrow> nat \<times> nat \<times> nat" where
  "mu s =
     (case stack s of
        None \<Rightarrow> (0, 0, 0)
      | Some f \<Rightarrow> (N s - st_width f, N s + 2 * st_width f - st_i f, rank (pc s) (N s) f))"

definition smaller :: "('e sorter \<times> 'e sorter) set" where
  "smaller = inv_image (less_than <*lex*> less_than <*lex*> less_than) mu"

lemma wf_smaller: "wf smaller"
  unfolding smaller_def by (intro wf_inv_image wf_lex_prod wf_less_than)

lemma smallerI:
  assumes "stack t = Some g" "stack s = Some f" "N t = N s"
    and "N s - st_width g < N s - st_width f
       \<or> st_width g = st_width f \<and> (N s + 2 * st_width f - st_i g < N s + 2 * st_width f - st_i f
          \<or> st_i g = st_i f \<and> rank (pc t) (N s) g < rank (pc s) (N s) f)"
  shows "(t, s) \<in> smaller"
  using assms by (auto simp: smaller_def mu_def)

lemma N_setFrame [simp]: "N (setFrame g s) = N s" "stack (setFrame g s) = Some g"
  by (simp_all add: setFrame_def)

lemma N_push [simp]: "N (pushUndoSnapshot s) = N s"
  by (simp add: pushUndoSnapshot_def Let_def)

lemma N_finish [simp]: "N (finish a b r s) = N s"
  by (cases r) (simp_all add: finish_def Let_def)

lemma prepare_keeps [simp]: "st_width (prepare d f) = st_width f" "st_i (prepare d f) = st_i f"
  by (simp_all add: prepare_def Let_def)

lemma afterLoop_keeps [simp]:
  "st_width (afterLoop f) = st_width f" "st_i (afterLoop f) = st_i f + 2 * st_width f"
  by (simp_all add: afterLoop_def Let_def)

lemma frameOK_pending:
  assumes "frameOK items f"
  shows "pending f \<le> length items"
proof -
  from assms have "length (st_L f) + length (st_R f) \<le> length (st_arr f) - st_i f"
    by (simp add: frameOK_def)
  moreover have "length (st_arr f) = length items" using frameOK_sizes(2) [OF assms] .
  ultimately show ?thesis by (simp add: pending_def)
qed

lemma outerStep_smaller:
  assumes v: "validInput dat items" and inv: "sortInv dat items s" and p: "pc s = AtOuter"
  shows "pc (outerStep s) = Finished \<or> (outerStep s, s) \<in> smaller"
proof -
  from inv p obtain f where c: "coreOK dat items s f" and e: "st_L f = []" "st_R f = []"
    by (auto simp: sortInv_running)
  then have st: "stack s = Some f" and ok: "frameOK items f" and d: "data s = dat"
    and n: "N s = length items"
    by (simp_all add: coreOK_def)
  have w: "1 \<le> st_width f" using ok by (simp add: frameOK_def)
  have la: "length (st_arr f) = length items" using frameOK_sizes(2) [OF ok] .
  show ?thesis
  proof (cases "st_width f < N s")
    case False
    then show ?thesis using st by (simp add: outerStep_def)
  next
    case True
    show ?thesis
    proof (cases "st_i f \<ge> length (st_arr f)")
      case ge: True
      let ?g = "f\<lparr>st_width := st_width f * 2, st_i := 0\<rparr>"
      have o: "outerStep s = setFrame ?g s" using True ge st by (simp add: outerStep_def)
      have "(setFrame ?g s, s) \<in> smaller"
        by (rule smallerI [where g = ?g and f = f]) (use st True w in simp_all)
      then show ?thesis unfolding o ..
    next
      case lt: False
      let ?g = "prepare dat f"
      have g: "frameOK items ?g" using frameOK_prepare [OF ok e v] .
      show ?thesis
      proof (cases "st_R ?g = []")
        case True
        then have o: "outerStep s = setFrame (fastForward ?g) s"
          using \<open>st_width f < N s\<close> lt st d by (simp add: outerStep_def Let_def)
        have "(setFrame (fastForward ?g) s, s) \<in> smaller"
          by (rule smallerI [where g = "fastForward ?g" and f = f])
             (use st lt la n w in \<open>simp_all add: fastForward_def\<close>)
        then show ?thesis unfolding o ..
      next
        case False
        then have o: "outerStep s = (setFrame ?g s)\<lparr>pc := AtInner\<rparr>"
          using \<open>st_width f < N s\<close> lt st d by (simp add: outerStep_def Let_def)
        have "((setFrame ?g s)\<lparr>pc := AtInner\<rparr>, s) \<in> smaller"
          by (rule smallerI [where g = ?g and f = f])
             (use st p n frameOK_pending [OF g] in simp_all)
        then show ?thesis unfolding o ..
      qed
    qed
  qed
qed

lemma applyRes_Num_smaller:
  assumes st: "stack s = Some f" and lt: "st_li f < length (st_L f)" "st_rj f < length (st_R f)"
    and t: "stack t = Some f" "N t = N s" and p: "pc t = AtInner \<or> (\<exists>a b. pc t = Waiting a b)"
  shows "(applyRes (Num v) s, t) \<in> smaller"
proof (cases "v \<ge> 0")
  case True
  let ?g = "f\<lparr>st_out := st_out f @ [st_L f ! st_li f], st_li := st_li f + 1\<rparr>"
  have e: "applyRes (Num v) s = (setFrame ?g s)\<lparr>pc := AtInner\<rparr>"
    using True st by (simp add: applyRes_def)
  show ?thesis unfolding e
    by (rule smallerI [where g = ?g and f = f]) (use t p lt in \<open>auto simp: pending_def\<close>)
next
  case False
  let ?g = "f\<lparr>st_out := st_out f @ [st_R f ! st_rj f], st_rj := st_rj f + 1\<rparr>"
  have e: "applyRes (Num v) s = (setFrame ?g s)\<lparr>pc := AtInner\<rparr>"
    using False st by (simp add: applyRes_def)
  show ?thesis unfolding e
    by (rule smallerI [where g = ?g and f = f]) (use t p lt in \<open>auto simp: pending_def\<close>)
qed

lemma innerStep_smaller:
  assumes v: "validInput dat items" and inv: "sortInv dat items s" and p: "pc s = AtInner"
  shows "(innerStep s, s) \<in> smaller"
proof -
  from inv p obtain f where c: "coreOK dat items s f" and cu: "cursorOK f"
    by (auto simp: sortInv_running)
  then have st: "stack s = Some f" and ok: "frameOK items f" and d: "data s = dat"
    and n: "N s = length items"
    by (simp_all add: coreOK_def)
  have w: "1 \<le> st_width f" using ok by (simp add: frameOK_def)
  have la: "length (st_arr f) = length items" using frameOK_sizes(2) [OF ok] .
  show ?thesis
  proof (cases "st_li f < length (st_L f) \<and> st_rj f < length (st_R f)")
    case True
    then have lt: "st_li f < length (st_L f)" "st_rj f < length (st_R f)" by simp_all
    let ?a = "st_L f ! st_li f" and ?b = "st_R f ! st_rj f"
    have "?a \<in> set items" "?b \<in> set items"
      using frameOK_block_subset [OF ok] lt by (auto dest: nth_mem)
    then have m: "?a \<in> set dat" "?b \<in> set dat" using v by (auto simp: validInput_def)
    have ne: "?a \<noteq> ?b"
      using nth_append_distinct [OF frameOK_block_distinct [OF ok] lt] v by (simp add: validInput_def)
    have e: "innerStep s = ask ?a ?b s"
      using st True m ne d by (simp add: innerStep_def Let_def)
    show ?thesis
    proof (cases "map_of (cache (pushUndoSnapshot s)) (keyFor ?a ?b)")
      case None
      then have a: "ask ?a ?b s = (pushUndoSnapshot s)\<lparr>pc := Waiting ?a ?b\<rparr>"
        by (simp add: ask_def Let_def)
      show ?thesis unfolding e a
        by (rule smallerI [where g = f and f = f]) (use st p in simp_all)
    next
      case (Some x)
      then have a: "ask ?a ?b s = applyRes (Num x) (pushUndoSnapshot s)"
        by (simp add: ask_def Let_def)
      show ?thesis unfolding e a
        by (rule applyRes_Num_smaller [where f = f]) (use st lt p in simp_all)
    qed
  next
    case False
    then have e: "innerStep s = (setFrame (afterLoop f) s)\<lparr>pc := AtOuter\<rparr>"
      using st by (auto simp add: innerStep_def)
    show ?thesis unfolding e
      by (rule smallerI [where g = "afterLoop f" and f = f])
         (use st cu la n w in \<open>simp_all add: cursorOK_def\<close>)
  qed
qed

lemma answer_smaller:
  assumes inv: "sortInv dat items s" and p: "pc s = Waiting a b" and j: "c \<in> {Left, Tie, Right}"
  shows "(answer c s, s) \<in> smaller"
proof -
  from inv p obtain f where c: "coreOK dat items s f" and lt: "st_li f < length (st_L f)" "st_rj f < length (st_R f)"
    by (auto simp: sortInv_running)
  then have st: "stack s = Some f" by (simp add: coreOK_def)
  from j obtain x where x: "valueOf c = Num x" by (cases c) simp_all
  have e: "answer c s = applyRes (Num x) (finish a b (Num x) s)" using p x by (simp add: answer_def)
  show ?thesis unfolding e
    by (rule applyRes_Num_smaller [where f = f]) (use st lt p in simp_all)
qed

text \<open>From any state of a run, enough judgments bring the driver to its end.\<close>

lemma run_completes:
  assumes v: "validInput dat items"
  shows "sortInv dat items s \<Longrightarrow>
     \<exists>k. \<forall>cs. k \<le> length cs \<and> set cs \<subseteq> {Left, Tie, Right} \<longrightarrow> (\<exists>fuel. pc (run fuel s cs) = Finished)"
proof (induction s rule: wf_induct_rule [OF wf_smaller])
  case (1 s)
  show ?case
  proof (cases "pc s")
    case AtOuter
    have i: "sortInv dat items (outerStep s)" using sortInv_outerStep [OF v "1.prems" AtOuter] .
    from outerStep_smaller [OF v "1.prems" AtOuter] show ?thesis
    proof
      assume f: "pc (outerStep s) = Finished"
      have "\<forall>cs. pc (run 1 s cs) = Finished" using AtOuter f by simp
      then show ?thesis by blast
    next
      assume "(outerStep s, s) \<in> smaller"
      from "1.IH" [OF this i] obtain k where
        k: "\<forall>cs. k \<le> length cs \<and> set cs \<subseteq> {Left, Tie, Right} \<longrightarrow> (\<exists>fuel. pc (run fuel (outerStep s) cs) = Finished)"
        by blast
      have "\<exists>fuel. pc (run fuel s cs) = Finished" if "k \<le> length cs \<and> set cs \<subseteq> {Left, Tie, Right}" for cs
      proof -
        from k that obtain fuel where "pc (run fuel (outerStep s) cs) = Finished" by blast
        then have "pc (run (Suc fuel) s cs) = Finished" using AtOuter by simp
        then show ?thesis ..
      qed
      then show ?thesis by blast
    qed
  next
    case AtInner
    have i: "sortInv dat items (innerStep s)" using sortInv_innerStep [OF v "1.prems" AtInner] by simp
    from "1.IH" [OF innerStep_smaller [OF v "1.prems" AtInner] i] obtain k where
      k: "\<forall>cs. k \<le> length cs \<and> set cs \<subseteq> {Left, Tie, Right} \<longrightarrow> (\<exists>fuel. pc (run fuel (innerStep s) cs) = Finished)"
      by blast
    have "\<exists>fuel. pc (run fuel s cs) = Finished" if "k \<le> length cs \<and> set cs \<subseteq> {Left, Tie, Right}" for cs
    proof -
      from k that obtain fuel where "pc (run fuel (innerStep s) cs) = Finished" by blast
      then have "pc (run (Suc fuel) s cs) = Finished" using AtInner by simp
      then show ?thesis ..
    qed
    then show ?thesis by blast
  next
    case (Waiting a b)
    have step: "\<exists>k. \<forall>cs. k \<le> length cs \<and> set cs \<subseteq> {Left, Tie, Right} \<longrightarrow> (\<exists>fuel. pc (run fuel (answer c s) cs) = Finished)"
      if "c \<in> {Left, Tie, Right}" for c
      using "1.IH" [OF answer_smaller [OF "1.prems" Waiting that]] sortInv_answer [OF "1.prems" Waiting, of c]
      by blast
    from step [of Left] step [of Tie] step [of Right] obtain kl kt kr where
      k: "\<forall>cs. kl \<le> length cs \<and> set cs \<subseteq> {Left, Tie, Right} \<longrightarrow> (\<exists>fuel. pc (run fuel (answer Left s) cs) = Finished)"
         "\<forall>cs. kt \<le> length cs \<and> set cs \<subseteq> {Left, Tie, Right} \<longrightarrow> (\<exists>fuel. pc (run fuel (answer Tie s) cs) = Finished)"
         "\<forall>cs. kr \<le> length cs \<and> set cs \<subseteq> {Left, Tie, Right} \<longrightarrow> (\<exists>fuel. pc (run fuel (answer Right s) cs) = Finished)"
      by auto
    define k where "k = Suc (max kl (max kt kr))"
    have "\<exists>fuel. pc (run fuel s cs) = Finished" if h: "k \<le> length cs \<and> set cs \<subseteq> {Left, Tie, Right}" for cs
    proof -
      from h obtain c cs' where cs: "cs = c # cs'" by (cases cs) (simp_all add: k_def)
      from h have l: "kl \<le> length cs'" "kt \<le> length cs'" "kr \<le> length cs'"
        and s: "set cs' \<subseteq> {Left, Tie, Right}" and c: "c \<in> {Left, Tie, Right}"
        by (simp_all add: cs k_def)
      from c k l s obtain fuel where "pc (run fuel (answer c s) cs') = Finished" by blast
      then have "pc (run (Suc fuel) s cs) = Finished" using Waiting cs by simp
      then show ?thesis ..
    qed
    then show ?thesis by blast
  next
    case Finished
    then have "\<forall>cs. pc (run 0 s cs) = Finished" by simp
    then show ?thesis by blast
  next
    case Threw
    then show ?thesis using "1.prems" by (auto simp: sortInv_def split: option.splits)
  qed
qed

text \<open>
  C1. For n >= 1 distinct candidates with non-empty ids that are among the loaded data,
  \<open>initSort\<close> sets up a run of \<open>continueSort\<close>, and

  \<^item> the run comes to its end: there is a number \<open>k\<close> such that every list of at least \<open>k\<close>
    Left, Tie and Right clicks brings the driver to the end of \<open>continueSort\<close> (a Skip that
    rotates the pair, or a Back, asks for a judgment again, so a run on Skips alone need
    not end);

  \<^item> whenever the run has come to its end, after any clicks whatever (Left, Tie, Right,
    Skip, and Back as well), the ranking it stores is a rearrangement of the candidates,
    with none repeated and none left out.
\<close>

theorem mergesort_result_is_permutation:
  assumes "distinct items" and "set items \<subseteq> set (data s0)" and "[] \<notin> set items" and "items \<noteq> []"
  shows "\<exists>s1. initSort items s0 = Some s1
           \<and> (\<exists>k. \<forall>cs. k \<le> length cs \<and> set cs \<subseteq> {Left, Tie, Right} \<longrightarrow>
                  (\<exists>fuel. pc (run fuel (continueSort s1) cs) = Finished))
           \<and> (\<forall>fuel cs. pc (run fuel (continueSort s1) cs) = Finished \<longrightarrow>
                  (\<exists>r. result (run fuel (continueSort s1) cs) = Some r
                      \<and> mset r = mset items \<and> distinct r \<and> set r = set items
                      \<and> length r = length items))"
proof -
  have v: "validInput (data s0) items" using assms(1-3) by (simp add: validInput_def)
  from assms(4) obtain s1 where s1: "initSort items s0 = Some s1" by (simp add: initSort_def Let_def)
  have start: "sortInv (data s0) items (continueSort s1)" using sortInv_start [OF v s1] .
  have live: "\<exists>k. \<forall>cs. k \<le> length cs \<and> set cs \<subseteq> {Left, Tie, Right} \<longrightarrow>
                  (\<exists>fuel. pc (run fuel (continueSort s1) cs) = Finished)"
    using run_completes [OF v start] .
  have safe: "\<exists>r. result (run fuel (continueSort s1) cs) = Some r
                      \<and> mset r = mset items \<and> distinct r \<and> set r = set items
                      \<and> length r = length items"
    if fin: "pc (run fuel (continueSort s1) cs) = Finished" for fuel cs
  proof -
    from sortInv_run [OF v start, of fuel cs] fin
    obtain r where r: "result (run fuel (continueSort s1) cs) = Some r" "mset r = mset items"
      by (auto simp: sortInv_def split: option.splits)
    have "distinct r" using r(2) assms(1) by (metis mset_eq_imp_distinct_iff)
    moreover have "set r = set items" by (rule mset_eq_setD [OF r(2)])
    moreover have "length r = length items" by (rule mset_eq_length [OF r(2)])
    ultimately show ?thesis using r by simp
  qed
  from s1 live safe show ?thesis by blast
qed

theorem mergesort_result_is_permutation_witness:
  "distinct [''b'', ''c'', ''a''] \<and> set [''b'', ''c'', ''a''] \<subseteq> set (data (defaultState [''a'', ''b'', ''c''] :: unit sorter))
   \<and> [] \<notin> set [''b'', ''c'', ''a''] \<and> [''b'', ''c'', ''a''] \<noteq> []
   \<and> (\<exists>s1. initSort [''b'', ''c'', ''a''] (defaultState [''a'', ''b'', ''c''] :: unit sorter) = Some s1
         \<and> (\<exists>k. \<forall>cs. k \<le> length cs \<and> set cs \<subseteq> {Left, Tie, Right} \<longrightarrow>
                (\<exists>fuel. pc (run fuel (continueSort s1) cs) = Finished))
         \<and> pc (run 30 (continueSort s1) [Right, Skip, Left, Tie]) = Finished
         \<and> result (run 30 (continueSort s1) [Right, Skip, Left, Tie]) = Some [''b'', ''c'', ''a'']
         \<and> pc (run 30 (continueSort s1) [Left, Left, Left]) = Finished
         \<and> result (run 30 (continueSort s1) [Left, Left, Left]) = Some [''b'', ''c'', ''a''])"
proof -
  let ?s0 = "defaultState [''a'', ''b'', ''c''] :: unit sorter"
  have h1: "distinct [''b'', ''c'', ''a'']" by simp
  have h2: "set [''b'', ''c'', ''a''] \<subseteq> set (data ?s0)" by (simp add: defaultState_def)
  have h3: "[] \<notin> set [''b'', ''c'', ''a'']" by simp
  have h4: "[''b'', ''c'', ''a''] \<noteq> []" by simp
  have h5: "map_option (\<lambda>s1. (pc (run 30 (continueSort s1) [Right, Skip, Left, Tie]),
                               result (run 30 (continueSort s1) [Right, Skip, Left, Tie])))
              (initSort [''b'', ''c'', ''a''] ?s0) = Some (Finished, Some [''b'', ''c'', ''a''])"
    by code_simp
  have h6: "map_option (\<lambda>s1. (pc (run 30 (continueSort s1) [Left, Left, Left]),
                               result (run 30 (continueSort s1) [Left, Left, Left])))
              (initSort [''b'', ''c'', ''a''] ?s0) = Some (Finished, Some [''b'', ''c'', ''a''])"
    by code_simp
  from mergesort_result_is_permutation [OF h1 h2 h3 h4] obtain s1 where
    s1: "initSort [''b'', ''c'', ''a''] ?s0 = Some s1"
    and live: "\<exists>k. \<forall>cs. k \<le> length cs \<and> set cs \<subseteq> {Left, Tie, Right} \<longrightarrow>
                (\<exists>fuel. pc (run fuel (continueSort s1) cs) = Finished)"
    by blast
  from h5 h6 s1 have "pc (run 30 (continueSort s1) [Right, Skip, Left, Tie]) = Finished"
    "result (run 30 (continueSort s1) [Right, Skip, Left, Tie]) = Some [''b'', ''c'', ''a'']"
    "pc (run 30 (continueSort s1) [Left, Left, Left]) = Finished"
    "result (run 30 (continueSort s1) [Left, Left, Left]) = Some [''b'', ''c'', ''a'']"
    by simp_all
  with h1 h2 h3 h4 s1 live show ?thesis by blast
qed

end
